theory Spec2Isabelle
  imports Main
begin

text \<open>
  A sorting trainer: the player is shown a short list of numbers and a sorting algorithm
  and has to perform, one swap at a time, exactly the swaps that the algorithm performs.
  \<^verbatim>\<open>algorithms.js\<close> computes that list of swaps, the plan; \<^verbatim>\<open>game-engine.js\<close> holds the
  session and checks each attempted swap against the plan. Both are modelled here,
  function by function, and the properties of the plans and of the session are proved
  about the model.
\<close>

section \<open>Text\<close>

text \<open>
  The user-visible texts of the program are Romanian. A \<^typ>\<open>string\<close> is a list of
  bytes, so each letter outside ASCII is written as its UTF-8 encoding.
\<close>

definition a_breve :: string where "a_breve = [CHR 0xC4, CHR 0x83]"
definition a_circ :: string where "a_circ = [CHR 0xC3, CHR 0xA2]"
definition i_circ :: string where "i_circ = [CHR 0xC3, CHR 0xAE]"
definition s_comma :: string where "s_comma = [CHR 0xC8, CHR 0x99]"
definition t_comma :: string where "t_comma = [CHR 0xC8, CHR 0x9B]"

text \<open>
  A template literal \<^verbatim>\<open>${n}\<close> renders an integer in decimal, with a minus sign when it is
  negative (the numbers of a game lie between 1 and 20).
\<close>

function show_nat :: "nat \<Rightarrow> string" where
  "show_nat n =
     (if n < 10 then [''0123456789'' ! n]
      else show_nat (n div 10) @ [''0123456789'' ! (n mod 10)])"
  by pat_completeness auto
termination
  by (relation "measure id") auto

declare show_nat.simps [simp del]

definition show_int :: "int \<Rightarrow> string" where
  "show_int i = (if i < 0 then ''-'' @ show_nat (nat (- i)) else show_nat (nat i))"

section \<open>algorithms.js: the step queue generators\<close>

subsection \<open>Algorithm descriptors\<close>

record algorithm =
  key :: string
  name :: string
  description :: string
  rules :: "string list"

definition bubble :: algorithm where
  "bubble = \<lparr>
     key = ''bubble'',
     name = ''Metoda Bulelor'',
     description = ''Compar'' @ a_breve @ '' perechi adiacente de la st'' @ a_circ
       @ ''nga la dreapta. Dac'' @ a_breve @ '' elementul din st'' @ a_circ
       @ ''nga este mai mare, schimb'' @ a_breve @ ''-le. Continu'' @ a_breve @ '' p''
       @ a_circ @ ''n'' @ a_breve @ '' c'' @ a_circ @ ''nd lista este sortat'' @ a_breve @ ''.'',
     rules = [
       ''Po'' @ t_comma @ ''i schimba DOAR elemente adiacente (unul l'' @ a_circ @ ''ng''
         @ a_breve @ '' altul)'',
       ''Schimb'' @ a_breve @ '' doar dac'' @ a_breve @ '' elementul din st'' @ a_circ
         @ ''nga > elementul din dreapta'',
       ''Parcurge de la st'' @ a_circ @ ''nga la dreapta, '' @ i_circ @ ''n ordine'']\<rparr>"

definition selection :: algorithm where
  "selection = \<lparr>
     key = ''selection'',
     name = ''Metoda Selec'' @ t_comma @ ''iei'',
     description = ''G'' @ a_breve @ ''se'' @ s_comma
       @ ''te elementul minim din partea nesortat'' @ a_breve @ '' '' @ s_comma @ ''i mut''
       @ a_breve @ ''-l la '' @ i_circ @ ''nceputul p'' @ a_breve @ ''r'' @ t_comma
       @ ''ii nesortate.'',
     rules = [
       ''G'' @ a_breve @ ''se'' @ s_comma @ ''te cel mai mic element din partea nesortat''
         @ a_breve,
       ''Schimb'' @ a_breve @ '' minimul cu primul element nesortat'',
       ''Prima pozi'' @ t_comma @ ''ie nesortat'' @ a_breve @ '' avanseaz'' @ a_breve
         @ '' cu 1'']\<rparr>"

definition insertion :: algorithm where
  "insertion = \<lparr>
     key = ''insertion'',
     name = ''Metoda Inser'' @ t_comma @ ''iei'',
     description = ''Ia fiecare element din partea nesortat'' @ a_breve @ '' '' @ s_comma
       @ ''i insereaz'' @ a_breve @ ''-l '' @ i_circ @ ''n pozi'' @ t_comma @ ''ia corect''
       @ a_breve @ '' '' @ i_circ @ ''n partea sortat'' @ a_breve @ '', mut'' @ a_circ
       @ ''ndu-l spre st'' @ a_circ @ ''nga.'',
     rules = [
       ''Elementele din st'' @ a_circ @ ''nga sunt considerate '' @ [CHR 0x22] @ ''sortate''
         @ [CHR 0x22],
       ''Ia primul element nesortat'',
       ''Mut'' @ a_breve @ ''-l spre st'' @ a_circ @ ''nga p'' @ a_circ @ ''n'' @ a_breve
         @ '' c'' @ a_circ @ ''nd ajunge la pozi'' @ t_comma @ ''ia corect'' @ a_breve]\<rparr>"

text \<open>
  \<^verbatim>\<open>ALGORITHMS\<close> is an object literal, and the program reads it as
  \<^verbatim>\<open>ALGORITHMS[algorithmKey]\<close>. Such a read finds the three own properties, finds the
  members that every object inherits from \<^verbatim>\<open>Object.prototype\<close> (functions, and the
  prototype itself under \<^verbatim>\<open>__proto__\<close>: all truthy, none with a \<^verbatim>\<open>key\<close> property), and is
  \<^verbatim>\<open>undefined\<close> for every other name.
\<close>

datatype js_object = Descriptor algorithm | Prototype_member

definition Object_prototype_names :: "string list" where
  "Object_prototype_names =
     [''constructor'', ''__defineGetter__'', ''__defineSetter__'', ''hasOwnProperty'',
      ''__lookupGetter__'', ''__lookupSetter__'', ''isPrototypeOf'', ''propertyIsEnumerable'',
      ''toString'', ''valueOf'', ''__proto__'', ''toLocaleString'']"

definition ALGORITHMS :: "string \<Rightarrow> js_object option" where
  "ALGORITHMS k =
     (if k = ''bubble'' then Some (Descriptor bubble)
      else if k = ''selection'' then Some (Descriptor selection)
      else if k = ''insertion'' then Some (Descriptor insertion)
      else if k \<in> set Object_prototype_names then Some Prototype_member
      else None)"

text \<open>\<^verbatim>\<open>Object.keys(ALGORITHMS)\<close>: the own property names, in insertion order.\<close>

definition ALGORITHMS_keys :: "string list" where
  "ALGORITHMS_keys = [''bubble'', ''selection'', ''insertion'']"

text \<open>\<^verbatim>\<open>object.key\<close>, which is \<^verbatim>\<open>undefined\<close> (\<open>None\<close>) on an inherited member.\<close>

fun key_of :: "js_object \<Rightarrow> string option" where
  "key_of (Descriptor a) = Some (key a)"
| "key_of Prototype_member = None"

subsection \<open>Steps\<close>

datatype step_type = SWAP | COMPARE | NO_ACTION

text \<open>The fields of a step that only one generator writes.\<close>

datatype step_meta =
    Bubble_meta (pass: nat) (position: nat)
  | Selection_meta (sortedPosition: nat) (minIndex: nat)
  | Insertion_meta (insertingElement: nat) (currentPosition: nat)

record step =
  type :: step_type
  indices :: "nat \<times> nat"
  step_values :: "int \<times> int"
  message :: string
  meta :: step_meta

text \<open>
  \<^verbatim>\<open>[array[i], array[j]] = [array[j], array[i]]\<close> on an array of numbers, at two positions
  inside the array. The generators call it on their private copy with both positions below
  \<^verbatim>\<open>n = array.length\<close>, by their loop bounds; so does the shuffle of the random numbers,
  and the exchange of the first two random numbers happens in an array of at least five
  (\<open>generateRandomNumbers_result\<close>).
\<close>

definition swap :: "'a list \<Rightarrow> nat \<Rightarrow> nat \<Rightarrow> 'a list" where
  "swap array i j = array[i := array ! j, j := array ! i]"

subsection \<open>Bubble sort\<close>

definition bubble_step :: "int list \<Rightarrow> nat \<Rightarrow> nat \<Rightarrow> step" where
  "bubble_step array i j = \<lparr>
     type = SWAP,
     indices = (j, j + 1),
     step_values = (array ! j, array ! (j + 1)),
     message = ''Schimb'' @ a_breve @ '' '' @ show_int (array ! j) @ '' cu ''
       @ show_int (array ! (j + 1)) @ '' (pozi'' @ t_comma @ ''ii '' @ show_nat j @ '' ''
       @ s_comma @ ''i '' @ show_nat (j + 1) @ '')'',
     meta = Bubble_meta (i + 1) j\<rparr>"

text \<open>The inner loop \<^verbatim>\<open>for (let j = 0; j < n - i - 1; j++)\<close>, entered at \<open>j\<close>.\<close>

function bubble_inner ::
  "nat \<Rightarrow> nat \<Rightarrow> nat \<Rightarrow> int list \<Rightarrow> step list \<Rightarrow> bool \<Rightarrow> int list \<times> step list \<times> bool"
where
  "bubble_inner n i j array steps swapped =
     (if int j < int n - int i - 1 then
        (if array ! j > array ! (j + 1) then
           bubble_inner n i (j + 1) (swap array j (j + 1))
             (steps @ [bubble_step array i j]) True
         else bubble_inner n i (j + 1) array steps swapped)
      else (array, steps, swapped))"
  by pat_completeness auto
termination
  by (relation "measure (\<lambda>(n, i, j, array, steps, swapped). n - j)") auto

declare bubble_inner.simps [simp del]

text \<open>The outer loop \<^verbatim>\<open>for (let i = 0; i < n - 1; i++)\<close>, with its \<^verbatim>\<open>break\<close>.\<close>

function bubble_outer :: "nat \<Rightarrow> nat \<Rightarrow> int list \<Rightarrow> step list \<Rightarrow> int list \<times> step list"
where
  "bubble_outer n i array steps =
     (if int i < int n - 1 then
        (case bubble_inner n i 0 array steps False of
           (array', steps', swapped) \<Rightarrow>
             if \<not> swapped then (array', steps')
             else bubble_outer n (i + 1) array' steps')
      else (array, steps))"
  by pat_completeness auto
termination
  by (relation "measure (\<lambda>(n, i, array, steps). n - i)") auto

declare bubble_outer.simps [simp del]

definition generateBubbleSortSteps :: "int list \<Rightarrow> step list" where
  "generateBubbleSortSteps arr = snd (bubble_outer (length arr) 0 arr [])"

subsection \<open>Selection sort\<close>

definition selection_step :: "int list \<Rightarrow> nat \<Rightarrow> nat \<Rightarrow> step" where
  "selection_step array i minIdx = \<lparr>
     type = SWAP,
     indices = (i, minIdx),
     step_values = (array ! i, array ! minIdx),
     message = ''Mut'' @ a_breve @ '' minimul '' @ show_int (array ! minIdx)
       @ '' de la pozi'' @ t_comma @ ''ia '' @ show_nat minIdx @ '' la pozi'' @ t_comma
       @ ''ia '' @ show_nat i,
     meta = Selection_meta i minIdx\<rparr>"

text \<open>The search \<^verbatim>\<open>for (let j = i + 1; j < n; j++)\<close> for the minimum, entered at \<open>j\<close>.\<close>

function selection_min :: "nat \<Rightarrow> nat \<Rightarrow> int list \<Rightarrow> nat \<Rightarrow> nat" where
  "selection_min n j array minIdx =
     (if j < n then
        selection_min n (j + 1) array (if array ! j < array ! minIdx then j else minIdx)
      else minIdx)"
  by pat_completeness auto
termination
  by (relation "measure (\<lambda>(n, j, array, minIdx). n - j)") auto

declare selection_min.simps [simp del]

function selection_outer :: "nat \<Rightarrow> nat \<Rightarrow> int list \<Rightarrow> step list \<Rightarrow> int list \<times> step list"
where
  "selection_outer n i array steps =
     (if int i < int n - 1 then
        (let minIdx = selection_min n (i + 1) array i in
         if minIdx \<noteq> i then
           selection_outer n (i + 1) (swap array i minIdx)
             (steps @ [selection_step array i minIdx])
         else selection_outer n (i + 1) array steps)
      else (array, steps))"
  by pat_completeness auto
termination
  by (relation "measure (\<lambda>(n, i, array, steps). n - i)") auto

declare selection_outer.simps [simp del]

definition generateSelectionSortSteps :: "int list \<Rightarrow> step list" where
  "generateSelectionSortSteps arr = snd (selection_outer (length arr) 0 arr [])"

subsection \<open>Insertion sort\<close>

definition insertion_step :: "int list \<Rightarrow> nat \<Rightarrow> nat \<Rightarrow> step" where
  "insertion_step array i j = \<lparr>
     type = SWAP,
     indices = (j - 1, j),
     step_values = (array ! (j - 1), array ! j),
     message = ''Mut'' @ a_breve @ '' '' @ show_int (array ! j) @ '' spre st'' @ a_circ
       @ ''nga (schimb'' @ a_breve @ '' cu '' @ show_int (array ! (j - 1)) @ '')'',
     meta = Insertion_meta i j\<rparr>"

text \<open>The loop \<^verbatim>\<open>while (j > 0 && array[j - 1] > array[j])\<close>.\<close>

function insertion_inner ::
  "nat \<Rightarrow> nat \<Rightarrow> int list \<Rightarrow> step list \<Rightarrow> int list \<times> step list"
where
  "insertion_inner i j array steps =
     (if j > 0 \<and> array ! (j - 1) > array ! j then
        insertion_inner i (j - 1) (swap array (j - 1) j)
          (steps @ [insertion_step array i j])
      else (array, steps))"
  by pat_completeness auto
termination
  by (relation "measure (\<lambda>(i, j, array, steps). j)") auto

declare insertion_inner.simps [simp del]

function insertion_outer :: "nat \<Rightarrow> nat \<Rightarrow> int list \<Rightarrow> step list \<Rightarrow> int list \<times> step list"
where
  "insertion_outer n i array steps =
     (if i < n then
        (case insertion_inner i i array steps of
           (array', steps') \<Rightarrow> insertion_outer n (i + 1) array' steps')
      else (array, steps))"
  by pat_completeness auto
termination
  by (relation "measure (\<lambda>(n, i, array, steps). n - i)") auto

declare insertion_outer.simps [simp del]

definition generateInsertionSortSteps :: "int list \<Rightarrow> step list" where
  "generateInsertionSortSteps arr = snd (insertion_outer (length arr) 1 arr [])"

subsection \<open>Dispatch, validation and texts\<close>

datatype js_error = Error string | TypeError

text \<open>How a template literal renders a key that may be \<^verbatim>\<open>undefined\<close>.\<close>

fun show_key :: "string option \<Rightarrow> string" where
  "show_key (Some k) = k"
| "show_key None = ''undefined''"

definition generateStepsForAlgorithm :: "string option \<Rightarrow> int list \<Rightarrow> js_error + step list"
where
  "generateStepsForAlgorithm algorithmKey arr =
     (if algorithmKey = Some ''bubble'' then Inr (generateBubbleSortSteps arr)
      else if algorithmKey = Some ''selection'' then Inr (generateSelectionSortSteps arr)
      else if algorithmKey = Some ''insertion'' then Inr (generateInsertionSortSteps arr)
      else Inl (Error (''Algoritm necunoscut: '' @ show_key algorithmKey)))"

text \<open>A step that may be \<^verbatim>\<open>null\<close> or \<^verbatim>\<open>undefined\<close> is a \<^typ>\<open>step option\<close>.\<close>

fun validateMove :: "step option \<Rightarrow> int \<Rightarrow> int \<Rightarrow> bool" where
  "validateMove None index1 index2 = False"
| "validateMove (Some expectedStep) index1 index2 =
     (case indices expectedStep of (expectedIdx1, expectedIdx2) \<Rightarrow>
        (index1 = int expectedIdx1 \<and> index2 = int expectedIdx2) \<or>
        (index1 = int expectedIdx2 \<and> index2 = int expectedIdx1))"

fun getErrorMessage :: "string option \<Rightarrow> step option \<Rightarrow> int \<Rightarrow> int \<Rightarrow> string" where
  "getErrorMessage algorithmKey None index1 index2 =
     ''Nu mai sunt mut'' @ a_breve @ ''ri necesare! Verific'' @ a_breve @ '' dac'' @ a_breve
       @ '' array-ul este sortat.''"
| "getErrorMessage algorithmKey (Some expectedStep) index1 index2 =
     (case indices expectedStep of (expIdx1, expIdx2) \<Rightarrow>
      case step_values expectedStep of (expVal1, expVal2) \<Rightarrow>
        if algorithmKey = Some ''bubble'' then
          (if \<bar>index1 - index2\<bar> \<noteq> 1 then
             ''Metoda Bulelor: Po'' @ t_comma
               @ ''i schimba doar elemente ADIACENTE! Trebuie s'' @ a_breve
               @ '' schimbi pozi'' @ t_comma @ ''iile '' @ show_nat expIdx1 @ '' '' @ s_comma
               @ ''i '' @ show_nat expIdx2 @ ''.''
           else
             ''Mutare gre'' @ s_comma @ ''it'' @ a_breve
               @ ''! Conform Metodei Bulelor, trebuie s'' @ a_breve
               @ '' compari elementele de la pozi'' @ t_comma @ ''iile '' @ show_nat expIdx1
               @ '' '' @ s_comma @ ''i '' @ show_nat expIdx2 @ '' (valorile ''
               @ show_int expVal1 @ '' '' @ s_comma @ ''i '' @ show_int expVal2 @ '').'')
        else if algorithmKey = Some ''selection'' then
          ''Mutare gre'' @ s_comma @ ''it'' @ a_breve @ ''! Conform Metodei Selec'' @ t_comma
            @ ''iei, trebuie s'' @ a_breve @ '' mu'' @ t_comma @ ''i minimul (''
            @ show_int expVal2 @ '') de la pozi'' @ t_comma @ ''ia '' @ show_nat expIdx2
            @ '' la pozi'' @ t_comma @ ''ia '' @ show_nat expIdx1 @ ''.''
        else if algorithmKey = Some ''insertion'' then
          ''Mutare gre'' @ s_comma @ ''it'' @ a_breve @ ''! Conform Metodei Inser'' @ t_comma
            @ ''iei, trebuie s'' @ a_breve @ '' mu'' @ t_comma @ ''i elementul ''
            @ show_int expVal2 @ '' de la pozi'' @ t_comma @ ''ia '' @ show_nat expIdx2
            @ '' spre st'' @ a_circ @ ''nga, schimb'' @ a_circ @ ''ndu-l cu ''
            @ show_int expVal1 @ ''.''
        else
          ''Mutare gre'' @ s_comma @ ''it'' @ a_breve @ ''! Trebuie s'' @ a_breve
            @ '' schimbi elementele de la pozi'' @ t_comma @ ''iile '' @ show_nat expIdx1
            @ '' '' @ s_comma @ ''i '' @ show_nat expIdx2 @ ''.'')"

fun getNextMoveHint :: "string option \<Rightarrow> step option \<Rightarrow> string" where
  "getNextMoveHint algorithmKey None =
     ''Array-ul este sortat! Apas'' @ a_breve @ '' '' @ [CHR 0x22] @ ''Verific'' @ a_breve
       @ '' Solu'' @ t_comma @ ''ia'' @ [CHR 0x22] @ ''.''"
| "getNextMoveHint algorithmKey (Some nextStep) =
     (case indices nextStep of (idx1, idx2) \<Rightarrow>
      case step_values nextStep of (val1, val2) \<Rightarrow>
        if algorithmKey = Some ''bubble'' then
          ''Compar'' @ a_breve @ '' pozi'' @ t_comma @ ''iile '' @ show_nat idx1 @ '' ''
            @ s_comma @ ''i '' @ show_nat idx2 @ '': schimb'' @ a_breve @ '' ''
            @ show_int val1 @ '' cu '' @ show_int val2
        else if algorithmKey = Some ''selection'' then
          ''G'' @ a_breve @ ''se'' @ s_comma @ ''te minimul ('' @ show_int val2 @ '') ''
            @ s_comma @ ''i mut'' @ a_breve @ ''-l la pozi'' @ t_comma @ ''ia ''
            @ show_nat idx1
        else if algorithmKey = Some ''insertion'' then
          ''Insereaz'' @ a_breve @ '' '' @ show_int val2 @ '': schimb'' @ a_breve @ '' cu ''
            @ show_int val1 @ '' (pozi'' @ t_comma @ ''ia '' @ show_nat idx1 @ '')''
        else
          ''Schimb'' @ a_breve @ '' pozi'' @ t_comma @ ''iile '' @ show_nat idx1 @ '' ''
            @ s_comma @ ''i '' @ show_nat idx2)"

section \<open>game-engine.js: the game session\<close>

subsection \<open>Arrays\<close>

text \<open>
  The session mutates \<^verbatim>\<open>this.numbers\<close> by index. A write beyond the end of a JavaScript
  array extends it, leaving holes; a read of a hole or beyond the end is \<^verbatim>\<open>undefined\<close>.
\<close>

datatype cell = Num int | Undefined | Hole

definition js_get :: "cell list \<Rightarrow> nat \<Rightarrow> cell" where
  "js_get xs i =
     (if i < length xs then (case xs ! i of Hole \<Rightarrow> Undefined | c \<Rightarrow> c) else Undefined)"

definition js_set :: "cell list \<Rightarrow> nat \<Rightarrow> cell \<Rightarrow> cell list" where
  "js_set xs i v =
     (if i < length xs then xs[i := v] else xs @ replicate (i - length xs) Hole @ [v])"

text \<open>\<^verbatim>\<open>[xs[i], xs[j]] = [xs[j], xs[i]]\<close>: both reads, then the write at \<open>i\<close>, then at \<open>j\<close>.\<close>

definition js_swap :: "cell list \<Rightarrow> nat \<Rightarrow> nat \<Rightarrow> cell list" where
  "js_swap xs i j = (let a = js_get xs j; b = js_get xs i in js_set (js_set xs i a) j b)"

text \<open>\<^verbatim>\<open>val >= prev\<close>: false as soon as one side is \<^verbatim>\<open>undefined\<close>.\<close>

fun js_ge :: "cell \<Rightarrow> cell \<Rightarrow> bool" where
  "js_ge (Num a) (Num b) = (a \<ge> b)"
| "js_ge _ _ = False"

fun show_cell :: "cell \<Rightarrow> string" where
  "show_cell (Num n) = show_int n"
| "show_cell _ = ''undefined''"

subsection \<open>Random numbers\<close>

text \<open>
  The values that \<^verbatim>\<open>Math.random()\<close> returns are an input of the model: a list of draws,
  consumed from the front. \<^verbatim>\<open>Math.floor(Math.random() * k)\<close>, for a positive integer
  \<open>k\<close>, is some number below \<open>k\<close>; the model takes the next draw modulo \<open>k\<close>, so that
  every list of draws is a possible run and every run is some list of draws. A loop that
  finds the list empty has not finished: the result \<open>None\<close>.
\<close>

fun random_below :: "nat \<Rightarrow> nat list \<Rightarrow> (nat \<times> nat list) option" where
  "random_below k [] = None"
| "random_below k (r # draws) = Some (r mod k, draws)"

text \<open>\<^verbatim>\<open>numbers.add(x)\<close> on a \<^verbatim>\<open>Set\<close>, which keeps insertion order.\<close>

definition set_add :: "int list \<Rightarrow> int \<Rightarrow> int list" where
  "set_add numbers x = (if x \<in> set numbers then numbers else numbers @ [x])"

text \<open>
  \<^verbatim>\<open>generateRandomNumbers\<close> is only ever called without arguments, and is modelled so:
  \<^verbatim>\<open>count = null\<close>, \<^verbatim>\<open>min = 1\<close>, \<^verbatim>\<open>max = 20\<close>. The loop
  \<^verbatim>\<open>while (numbers.size < numCount)\<close>:
\<close>

fun fill_numbers :: "nat \<Rightarrow> int list \<Rightarrow> nat list \<Rightarrow> (int list \<times> nat list) option" where
  "fill_numbers numCount numbers [] =
     (if length numbers < numCount then None else Some (numbers, []))"
| "fill_numbers numCount numbers (r # draws) =
     (if length numbers < numCount then
        fill_numbers numCount (set_add numbers (int (r mod (20 - 1 + 1)) + 1)) draws
      else Some (numbers, r # draws))"

text \<open>The shuffle \<^verbatim>\<open>for (let i = arr.length - 1; i > 0; i--)\<close>, entered at \<open>i\<close>.\<close>

fun shuffle :: "nat \<Rightarrow> int list \<Rightarrow> nat list \<Rightarrow> (int list \<times> nat list) option" where
  "shuffle 0 arr draws = Some (arr, draws)"
| "shuffle (Suc i) arr draws =
     (case random_below (Suc i + 1) draws of
        None \<Rightarrow> None
      | Some (j, draws') \<Rightarrow> shuffle i (swap arr (Suc i) j) draws')"

text \<open>\<^verbatim>\<open>arr.every((val, idx) => idx === 0 || val >= arr[idx - 1])\<close> on an array of numbers.\<close>

definition every_not_below_previous :: "int list \<Rightarrow> bool" where
  "every_not_below_previous arr =
     list_all (\<lambda>idx. idx = 0 \<or> arr ! idx \<ge> arr ! (idx - 1)) [0..<length arr]"

definition generateRandomNumbers :: "nat list \<Rightarrow> (int list \<times> nat list) option" where
  "generateRandomNumbers draws =
     (case random_below 3 draws of
        None \<Rightarrow> None
      | Some (r, draws1) \<Rightarrow>
          let numCount = r + 5 in
          case fill_numbers numCount [] draws1 of
            None \<Rightarrow> None
          | Some (numbers, draws2) \<Rightarrow>
              case shuffle (length numbers - 1) numbers draws2 of
                None \<Rightarrow> None
              | Some (arr, draws3) \<Rightarrow>
                  Some (if every_not_below_previous arr then swap arr 0 1 else arr, draws3))"

definition selectRandomAlgorithm :: "nat list \<Rightarrow> (js_object option \<times> nat list) option" where
  "selectRandomAlgorithm draws =
     (case random_below (length ALGORITHMS_keys) draws of
        None \<Rightarrow> None
      | Some (r, draws') \<Rightarrow> Some (ALGORITHMS (ALGORITHMS_keys ! r), draws'))"

subsection \<open>Session state\<close>

datatype game_state = IDLE | PLAYING | COMPLETED | PAUSED

record game_stats =
  totalMoves :: nat
  correctMoves :: nat
  incorrectMoves :: nat
  startTime :: "int option"
  endTime :: "int option"

record session =
  state :: game_state
  numbers :: "cell list"
  originalNumbers :: "cell list"
  currentAlgorithm :: "js_object option"
  stepQueue :: "step list"
  currentStepIndex :: nat
  selectedIndex :: "int option"
  stats :: game_stats

definition reset :: "session \<Rightarrow> session" where
  "reset s = \<lparr>
     state = IDLE,
     numbers = [],
     originalNumbers = [],
     currentAlgorithm = None,
     stepQueue = [],
     currentStepIndex = 0,
     selectedIndex = None,
     stats = \<lparr>totalMoves = 0, correctMoves = 0, incorrectMoves = 0,
       startTime = None, endTime = None\<rparr>\<rparr>"

text \<open>
  The constructor only calls \<^verbatim>\<open>reset\<close>, which assigns every field; \<^verbatim>\<open>gameEngine\<close> is the
  engine that the module exports, as constructed.
\<close>

definition gameEngine :: session where
  "gameEngine = \<lparr>
     state = IDLE,
     numbers = [],
     originalNumbers = [],
     currentAlgorithm = None,
     stepQueue = [],
     currentStepIndex = 0,
     selectedIndex = None,
     stats = \<lparr>totalMoves = 0, correctMoves = 0, incorrectMoves = 0,
       startTime = None, endTime = None\<rparr>\<rparr>"

subsection \<open>Queries\<close>

text \<open>
  \<^verbatim>\<open>numbers.every((val, idx) => idx === 0 || val >= numbers[idx - 1])\<close>; \<^verbatim>\<open>every\<close>
  does not visit holes.
\<close>

definition every_ge_previous :: "cell list \<Rightarrow> bool" where
  "every_ge_previous xs =
     list_all (\<lambda>idx. xs ! idx = Hole \<or> idx = 0 \<or> js_ge (xs ! idx) (js_get xs (idx - 1)))
       [0..<length xs]"

definition isSorted :: "session \<Rightarrow> bool" where
  "isSorted s = every_ge_previous (numbers s)"

text \<open>\<^verbatim>\<open>this.stepQueue[this.currentStepIndex]\<close>, \<^verbatim>\<open>undefined\<close> beyond the end.\<close>

definition getCurrentExpectedStep :: "session \<Rightarrow> step option" where
  "getCurrentExpectedStep s =
     (if currentStepIndex s < length (stepQueue s)
      then Some (stepQueue s ! currentStepIndex s) else None)"

text \<open>\<^verbatim>\<open>this.currentAlgorithm?.key\<close>.\<close>

definition current_key :: "session \<Rightarrow> string option" where
  "current_key s = (case currentAlgorithm s of None \<Rightarrow> None | Some obj \<Rightarrow> key_of obj)"

definition session_hint :: "session \<Rightarrow> string" where
  "session_hint s = getNextMoveHint (current_key s) (getCurrentExpectedStep s)"

text \<open>
  \<^verbatim>\<open>getProgress\<close> without its \<^verbatim>\<open>percentage\<close>, which is a rounded double.
\<close>

record progress =
  progress_completed :: nat
  total :: nat
  remaining :: int

definition getProgress :: "session \<Rightarrow> progress" where
  "getProgress s = \<lparr>
     progress_completed = currentStepIndex s,
     total = length (stepQueue s),
     remaining = int (length (stepQueue s)) - int (currentStepIndex s)\<rparr>"

subsection \<open>Starting a game\<close>

record start_info =
  info_numbers :: "cell list"
  info_algorithm :: "js_object option"
  totalSteps :: nat
  firstHint :: string

text \<open>
  \<^verbatim>\<open>startNewGame(algorithmKey = null)\<close>. An argument that is absent, \<^verbatim>\<open>null\<close> or the
  empty string is falsy. The results are: \<open>None\<close> when the draws run out, otherwise the
  session as the call leaves it, with the thrown error or the returned object.
  \<open>now\<close> is what \<^verbatim>\<open>Date.now()\<close> returns. The copy \<^verbatim>\<open>[...this.numbers]\<close> handed to the
  generator is the list \<open>arr\<close> of the numbers just drawn.
\<close>

definition startNewGame ::
  "string option \<Rightarrow> nat list \<Rightarrow> int \<Rightarrow> session \<Rightarrow> ((js_error + start_info) \<times> session) option"
where
  "startNewGame algorithmKey draws now s =
     (let s0 = reset s;
          listed = (case algorithmKey of
                      None \<Rightarrow> None
                    | Some k \<Rightarrow> if k = [] then None else ALGORITHMS k);
          chosen = (case listed of
                      Some obj \<Rightarrow> Some (Some obj, draws)
                    | None \<Rightarrow> selectRandomAlgorithm draws)
      in case chosen of
        None \<Rightarrow> None
      | Some (algorithm, draws1) \<Rightarrow>
          let s1 = s0\<lparr>currentAlgorithm := algorithm\<rparr> in
          case generateRandomNumbers draws1 of
            None \<Rightarrow> None
          | Some (arr, draws2) \<Rightarrow>
              let s2 = s1\<lparr>numbers := map Num arr, originalNumbers := map Num arr\<rparr> in
              case currentAlgorithm s2 of
                None \<Rightarrow> Some (Inl TypeError, s2)
              | Some obj \<Rightarrow>
                  case generateStepsForAlgorithm (key_of obj) arr of
                    Inl e \<Rightarrow> Some (Inl e, s2)
                  | Inr steps \<Rightarrow>
                      let s3 = s2\<lparr>stepQueue := steps, currentStepIndex := 0,
                                 state := PLAYING,
                                 stats := (stats s2)\<lparr>startTime := Some now\<rparr>\<rparr>
                      in Some (Inr \<lparr>info_numbers = numbers s3,
                                    info_algorithm = currentAlgorithm s3,
                                    totalSteps = length (stepQueue s3),
                                    firstHint = session_hint s3\<rparr>, s3))"

definition changeAlgorithm ::
  "string \<Rightarrow> nat list \<Rightarrow> int \<Rightarrow> session \<Rightarrow> ((js_error + start_info) \<times> session) option"
where
  "changeAlgorithm algorithmKey draws now s =
     (case ALGORITHMS algorithmKey of
        Some obj \<Rightarrow> startNewGame (Some algorithmKey) draws now s
      | None \<Rightarrow> Some (Inl (Error (''Algoritm necunoscut: '' @ algorithmKey)), s))"

subsection \<open>Selecting and swapping\<close>

text \<open>
  The objects that \<^verbatim>\<open>selectElement\<close> and \<^verbatim>\<open>attemptSwap\<close> return: a property that an
  object does not have is \<open>None\<close>.
\<close>

record result =
  success :: bool
  correct :: "bool option"
  completed :: "bool option"
  action :: "string option"
  result_selectedIndex :: "int option"
  result_indices :: "(int \<times> int) option"
  expectedIndices :: "(nat \<times> nat) option"
  result_message :: string
  nextHint :: "string option"
  hint :: "string option"
  result_progress :: "progress option"

definition plain_result :: "bool \<Rightarrow> string \<Rightarrow> result" where
  "plain_result ok msg = \<lparr>
     success = ok, correct = None, completed = None, action = None,
     result_selectedIndex = None, result_indices = None, expectedIndices = None,
     result_message = msg, nextHint = None, hint = None, result_progress = None\<rparr>"

definition completeGame :: "int \<Rightarrow> session \<Rightarrow> session" where
  "completeGame now s = s\<lparr>state := COMPLETED, stats := (stats s)\<lparr>endTime := Some now\<rparr>\<rparr>"

definition attemptSwap :: "int \<Rightarrow> int \<Rightarrow> int \<Rightarrow> session \<Rightarrow> (js_error + result) \<times> session"
where
  "attemptSwap index1 index2 now s =
     (if state s \<noteq> PLAYING then
        (Inr ((plain_result False ''Jocul nu este activ!'')\<lparr>correct := Some False\<rparr>), s)
      else
        let s1 = s\<lparr>stats := (stats s)\<lparr>totalMoves := totalMoves (stats s) + 1\<rparr>\<rparr> in
        case getCurrentExpectedStep s1 of
          None \<Rightarrow>
            if isSorted s1 then
              (Inr ((plain_result True
                      (''Felicit'' @ a_breve @ ''ri! Array-ul este deja sortat!''))
                    \<lparr>correct := Some True, completed := Some True\<rparr>),
               completeGame now s1)
            else
              (Inr ((plain_result False
                      (''Nu mai sunt mut'' @ a_breve @ ''ri necesare. Verific'' @ a_breve
                         @ '' solu'' @ t_comma @ ''ia!''))
                    \<lparr>correct := Some False\<rparr>), s1)
        | Some expectedStep \<Rightarrow>
            if validateMove (Some expectedStep) index1 index2 then
              let s2 = s1\<lparr>stats := (stats s1)\<lparr>correctMoves := correctMoves (stats s1) + 1\<rparr>,
                         numbers := js_swap (numbers s1) (nat index1) (nat index2),
                         currentStepIndex := currentStepIndex s1 + 1\<rparr>;
                  isComplete = (currentStepIndex s2 \<ge> length (stepQueue s2));
                  s3 = (if isComplete then completeGame now s2 else s2)
              in (Inr ((plain_result True (''Corect! Continu'' @ a_breve @ ''.''))
                       \<lparr>correct := Some True, completed := Some isComplete,
                        result_indices := Some (index1, index2),
                        nextHint := Some (session_hint s3),
                        result_progress := Some (getProgress s3)\<rparr>), s3)
            else
              let s2 = s1\<lparr>stats := (stats s1)
                           \<lparr>incorrectMoves := incorrectMoves (stats s1) + 1\<rparr>\<rparr> in
              case currentAlgorithm s2 of
                None \<Rightarrow> (Inl TypeError, s2)
              | Some obj \<Rightarrow>
                  (Inr ((plain_result False
                          (getErrorMessage (key_of obj) (Some expectedStep) index1 index2))
                        \<lparr>correct := Some False,
                         result_indices := Some (index1, index2),
                         expectedIndices := Some (indices expectedStep),
                         hint := Some (session_hint s2)\<rparr>), s2))"

definition selectElement :: "int \<Rightarrow> int \<Rightarrow> session \<Rightarrow> (js_error + result) \<times> session" where
  "selectElement index now s =
     (if state s \<noteq> PLAYING then (Inr (plain_result False ''Jocul nu este activ!''), s)
      else if index < 0 \<or> index \<ge> int (length (numbers s)) then
        (Inr (plain_result False ''Index invalid!''), s)
      else
        case selectedIndex s of
          None \<Rightarrow>
            (Inr ((plain_result True
                    (''Selectat '' @ show_cell (js_get (numbers s) (nat index))
                       @ ''. Alege alt element pentru schimbare.''))
                  \<lparr>action := Some ''selected'', result_selectedIndex := Some index\<rparr>),
             s\<lparr>selectedIndex := Some index\<rparr>)
        | Some firstIndex \<Rightarrow>
            if firstIndex = index then
              (Inr ((plain_result True
                      (''Selec'' @ t_comma @ ''ie anulat'' @ a_breve @ ''.''))
                    \<lparr>action := Some ''deselected''\<rparr>),
               s\<lparr>selectedIndex := None\<rparr>)
            else attemptSwap firstIndex index now (s\<lparr>selectedIndex := None\<rparr>))"

section \<open>Notions for the statements and proofs\<close>

text \<open>
  Replaying a plan on a list of numbers, with the swap of the generators; a plan is
  \<open>recorded\<close> from a list when every step names two different positions inside it
  and the two values found there at the time the step is replayed.
\<close>

definition apply_step :: "int list \<Rightarrow> step \<Rightarrow> int list" where
  "apply_step xs st = swap xs (fst (indices st)) (snd (indices st))"

definition replay :: "step list \<Rightarrow> int list \<Rightarrow> int list" where
  "replay steps xs = foldl apply_step xs steps"

fun recorded :: "int list \<Rightarrow> step list \<Rightarrow> bool" where
  "recorded xs [] = True"
| "recorded xs (st # sts) =
     (fst (indices st) < length xs \<and> snd (indices st) < length xs
      \<and> fst (indices st) \<noteq> snd (indices st) \<and> type st = SWAP
      \<and> step_values st = (xs ! fst (indices st), xs ! snd (indices st))
      \<and> recorded (apply_step xs st) sts)"

definition trace :: "int list \<Rightarrow> int list \<Rightarrow> step list \<Rightarrow> bool" where
  "trace arr0 array steps \<longleftrightarrow> recorded arr0 steps \<and> replay steps arr0 = array"

definition placed :: "nat \<Rightarrow> nat \<Rightarrow> int list \<Rightarrow> bool" where
  "placed n i a \<longleftrightarrow> (\<forall>k<i. \<forall>m. k < m \<and> m < n \<longrightarrow> a ! k \<le> a ! m)"

definition sorted_upto :: "nat \<Rightarrow> int list \<Rightarrow> bool" where
  "sorted_upto i a \<longleftrightarrow> (\<forall>p q. p < q \<and> q < i \<longrightarrow> a ! p \<le> a ! q)"

definition inserting :: "nat \<Rightarrow> nat \<Rightarrow> int list \<Rightarrow> bool" where
  "inserting i j a \<longleftrightarrow>
     (\<forall>p q. p < q \<and> q \<le> i \<and> p \<noteq> j \<and> q \<noteq> j \<longrightarrow> a ! p \<le> a ! q)
     \<and> (\<forall>q. j < q \<and> q \<le> i \<longrightarrow> a ! j \<le> a ! q)"

definition settled :: "nat \<Rightarrow> nat \<Rightarrow> int list \<Rightarrow> bool" where
  "settled n i a \<longleftrightarrow> (\<forall>k. n - i \<le> k \<and> k < n \<longrightarrow> (\<forall>m<k. a ! m \<le> a ! k))"

text \<open>
  Applying the steps of a plan, in order, as swaps to a JavaScript array: the swap is the
  one that \<open>attemptSwap\<close> performs.
\<close>

definition apply_swaps :: "step list \<Rightarrow> cell list \<Rightarrow> cell list" where
  "apply_swaps steps xs =
     foldl (\<lambda>ys st. js_swap ys (fst (indices st)) (snd (indices st))) xs steps"

text \<open>
  The boundaries of selection sort are the positions \<open>0, \<dots>, n - 2\<close>. At a boundary the
  search of the source finds the minimum in place when it returns the boundary itself;
  the value at the boundary is then the least value of the suffix that starts there.
\<close>

definition search_finds_boundary :: "int list \<Rightarrow> bool" where
  "search_finds_boundary arr =
     list_all (\<lambda>i. selection_min (length arr) (i + 1) arr i = i) [0..<length arr - 1]"

definition boundary_holds_minimum :: "int list \<Rightarrow> bool" where
  "boundary_holds_minimum arr =
     list_all (\<lambda>i. arr ! i = Min (set (drop i arr))) [0..<length arr - 1]"

text \<open>
  The sessions that the interface can produce: \<open>startNewGame\<close> called in any session,
  whatever it returns or throws, followed by any calls of \<open>selectElement\<close>.
\<close>

inductive reachable :: "session \<Rightarrow> bool" where
  start: "startNewGame algorithmKey draws now s0 = Some (outcome, s) \<Longrightarrow> reachable s"
| select: "reachable s \<Longrightarrow> selectElement index now s = (outcome, s') \<Longrightarrow> reachable s'"

text \<open>What holds of every such session.\<close>

definition session_ok :: "session \<Rightarrow> bool" where
  "session_ok s \<longleftrightarrow>
     (\<exists>arr. originalNumbers s = map Num arr \<and> recorded arr (stepQueue s)
        \<and> currentStepIndex s \<le> length (stepQueue s)
        \<and> numbers s = map Num (replay (take (currentStepIndex s) (stepQueue s)) arr))
     \<and> totalMoves (stats s) = correctMoves (stats s) + incorrectMoves (stats s)
     \<and> (state s = PLAYING \<longrightarrow>
          currentStepIndex s < length (stepQueue s)
          \<and> (\<exists>a. currentAlgorithm s = Some (Descriptor a)))"

text \<open>
  Two sessions for the examples. The first is a bubble sort game on \<open>[5, 3, 4]\<close> as
  \<open>startNewGame\<close> would leave it, had it drawn these numbers. The second is the game
  that \<open>startNewGame\<close> starts on a new engine when the draws make it choose bubble
  sort and five numbers, draw 1 to 5 and shuffle nothing: the sorted \<open>[1, 2, 3, 4, 5]\<close>
  then has its first two numbers exchanged.
\<close>

definition game_5_3_4 :: session where
  "game_5_3_4 = \<lparr>
     state = PLAYING,
     numbers = map Num [5, 3, 4],
     originalNumbers = map Num [5, 3, 4],
     currentAlgorithm = Some (Descriptor bubble),
     stepQueue = generateBubbleSortSteps [5, 3, 4],
     currentStepIndex = 0,
     selectedIndex = None,
     stats = \<lparr>totalMoves = 0, correctMoves = 0, incorrectMoves = 0,
       startTime = Some 0, endTime = None\<rparr>\<rparr>"

definition example_draws :: "nat list" where
  "example_draws = [0, 0, 0, 1, 2, 3, 4, 4, 3, 2, 1]"

definition example_game :: session where
  "example_game = \<lparr>
     state = PLAYING,
     numbers = map Num [2, 1, 3, 4, 5],
     originalNumbers = map Num [2, 1, 3, 4, 5],
     currentAlgorithm = Some (Descriptor bubble),
     stepQueue = generateBubbleSortSteps [2, 1, 3, 4, 5],
     currentStepIndex = 0,
     selectedIndex = None,
     stats = \<lparr>totalMoves = 0, correctMoves = 0, incorrectMoves = 0,
       startTime = Some 0, endTime = None\<rparr>\<rparr>"

section \<open>The generators\<close>

subsection \<open>Swaps and recorded plans\<close>

lemma length_swap [simp]: "length (swap xs i j) = length xs"
  by (simp add: swap_def)

lemma nth_swap:
  "i < length xs \<Longrightarrow> j < length xs \<Longrightarrow>
   swap xs i j ! k = (if k = j then xs ! i else if k = i then xs ! j else xs ! k)"
  by (simp add: swap_def nth_list_update)

lemma recorded_append:
  "recorded xs (sts @ sts') = (recorded xs sts \<and> recorded (replay sts xs) sts')"
  by (induction sts arbitrary: xs) (auto simp: replay_def)

lemma replay_append: "replay (sts @ sts') xs = replay sts' (replay sts xs)"
  by (simp add: replay_def)

lemma length_replay [simp]: "length (replay sts xs) = length xs"
  by (induction sts arbitrary: xs) (auto simp: replay_def apply_step_def)

lemma trace_snoc:
  assumes "trace arr0 array steps" "i < length array" "j < length array" "i \<noteq> j"
    "indices st = (i, j)" "step_values st = (array ! i, array ! j)" "type st = SWAP"
  shows "trace arr0 (swap array i j) (steps @ [st])"
  using assms by (auto simp: trace_def recorded_append replay_append replay_def apply_step_def)

lemma trace_length: "trace arr0 array steps \<Longrightarrow> length array = length arr0"
  by (auto simp: trace_def)

lemma trace_start: "trace arr arr []"
  by (simp add: trace_def replay_def)

subsection \<open>Bubble sort\<close>

lemma settled_swap:
  assumes "settled n i a" "length a = n" "j + 1 + i < n"
  shows "settled n i (swap a j (j + 1))"
  using assms unfolding settled_def by (auto simp: nth_swap)

lemma bubble_inner_pass:
  assumes "length a = n" "settled n i a" "j + i < n" "\<forall>m<j. a ! m \<le> a ! j"
    "\<not> sw \<longrightarrow> (\<forall>m<j. a ! m \<le> a ! (m + 1))"
  shows "case bubble_inner n i j a s sw of (a', s', sw') \<Rightarrow>
           length a' = n \<and> settled n (i + 1) a' \<and>
           (\<not> sw' \<longrightarrow> (\<forall>m. m + i + 1 < n \<longrightarrow> a' ! m \<le> a' ! (m + 1)))"
  using assms
proof (induction n i j a s sw rule: bubble_inner.induct)
  case (1 n i j array steps swapped)
  show ?case
  proof (cases "int j < int n - int i - 1")
    case False
    with "1.prems" have j: "j + i + 1 = n" by linarith
    have "settled n (i + 1) array"
      unfolding settled_def
    proof (rule allI, rule impI)
      fix k assume k: "n - (i + 1) \<le> k \<and> k < n"
      show "\<forall>m<k. array ! m \<le> array ! k"
      proof (cases "k = j")
        case True then show ?thesis using "1.prems"(4) by simp
      next
        case False
        with k j have "n - i \<le> k \<and> k < n" by linarith
        with "1.prems"(2) show ?thesis unfolding settled_def by blast
      qed
    qed
    moreover have "\<not> swapped \<longrightarrow> (\<forall>m. m + i + 1 < n \<longrightarrow> array ! m \<le> array ! (m + 1))"
      using "1.prems"(5) j by auto
    ultimately show ?thesis
      using False "1.prems"(1) by (simp add: bubble_inner.simps[of n i j])
  next
    case True
    then have j: "j + 1 + i < n" by linarith
    show ?thesis
    proof (cases "array ! j > array ! (j + 1)")
      case gt: True
      let ?a = "swap array j (j + 1)"
      have "length ?a = n" using "1.prems"(1) by simp
      moreover have "settled n i ?a" using settled_swap[OF "1.prems"(2,1) j] .
      moreover have "j + 1 + i < n" using j .
      moreover have "\<forall>m<j + 1. ?a ! m \<le> ?a ! (j + 1)"
        using "1.prems"(1,4) j gt by (auto simp: nth_swap less_Suc_eq)
      ultimately have "case bubble_inner n i (j + 1) ?a (steps @ [bubble_step array i j]) True of
          (a', s', sw') \<Rightarrow> length a' = n \<and> settled n (i + 1) a' \<and>
           (\<not> sw' \<longrightarrow> (\<forall>m. m + i + 1 < n \<longrightarrow> a' ! m \<le> a' ! (m + 1)))"
        using "1.IH"(1)[OF True gt] by simp
      then show ?thesis using True gt by (simp add: bubble_inner.simps[of n i j])
    next
      case le: False
      have "\<forall>m<j + 1. array ! m \<le> array ! (j + 1)"
        using "1.prems"(4) le by (auto simp: less_Suc_eq intro: order_trans)
      moreover have "\<not> swapped \<longrightarrow> (\<forall>m<j + 1. array ! m \<le> array ! (m + 1))"
        using "1.prems"(5) le by (auto simp: less_Suc_eq)
      ultimately have "case bubble_inner n i (j + 1) array steps swapped of
          (a', s', sw') \<Rightarrow> length a' = n \<and> settled n (i + 1) a' \<and>
           (\<not> sw' \<longrightarrow> (\<forall>m. m + i + 1 < n \<longrightarrow> a' ! m \<le> a' ! (m + 1)))"
        using "1.IH"(2)[OF True le "1.prems"(1,2)] j by simp
      then show ?thesis using True le by (simp add: bubble_inner.simps[of n i j])
    qed
  qed
qed

lemma bubble_outer_sorted:
  assumes "length a = n" "settled n i a"
  shows "sorted (fst (bubble_outer n i a s))"
  using assms
proof (induction n i a s rule: bubble_outer.induct)
  case (1 n i array steps)
  show ?case
  proof (cases "int i < int n - 1")
    case False
    have "sorted array"
      unfolding sorted_iff_nth_Suc
    proof (intro allI impI)
      fix m assume "Suc m < length array"
      with False "1.prems" have "n - i \<le> Suc m \<and> Suc m < n" by linarith
      with "1.prems"(2) show "array ! m \<le> array ! Suc m" unfolding settled_def by blast
    qed
    with False show ?thesis by (simp add: bubble_outer.simps[of n i])
  next
    case True
    obtain a' s' sw' where r: "bubble_inner n i 0 array steps False = (a', s', sw')"
      by (cases "bubble_inner n i 0 array steps False") auto
    have "i < n" using True by linarith
    with bubble_inner_pass[of array n i 0 False steps] "1.prems" r
    have p: "length a' = n" "settled n (i + 1) a'"
      "\<not> sw' \<longrightarrow> (\<forall>m. m + i + 1 < n \<longrightarrow> a' ! m \<le> a' ! (m + 1))"
      by auto
    show ?thesis
    proof (cases sw')
      case True
      with "1.IH"[OF \<open>int i < int n - 1\<close> r[symmetric] refl] p r \<open>int i < int n - 1\<close>
      show ?thesis by (simp add: bubble_outer.simps[of n i])
    next
      case False
      have "sorted a'"
        unfolding sorted_iff_nth_Suc
      proof (intro allI impI)
        fix m assume m: "Suc m < length a'"
        show "a' ! m \<le> a' ! Suc m"
        proof (cases "m + i + 1 < n")
          case True then show ?thesis using p(3) False by simp
        next
          case ge: False
          with m p(1) have "n - (i + 1) \<le> Suc m \<and> Suc m < n" by linarith
          with p(2) show ?thesis unfolding settled_def by blast
        qed
      qed
      with False r \<open>int i < int n - 1\<close> show ?thesis by (simp add: bubble_outer.simps[of n i])
    qed
  qed
qed

lemma bubble_inner_trace:
  assumes "trace arr0 a s" "length a = n"
  shows "case bubble_inner n i j a s sw of (a', s', sw') \<Rightarrow> trace arr0 a' s'"
  using assms
proof (induction n i j a s sw rule: bubble_inner.induct)
  case (1 n i j array steps swapped)
  show ?case
  proof (cases "int j < int n - int i - 1")
    case False
    with "1.prems" show ?thesis by (simp add: bubble_inner.simps[of n i j])
  next
    case True
    then have j: "j < n" "j + 1 < n" by linarith+
    show ?thesis
    proof (cases "array ! j > array ! (j + 1)")
      case gt: True
      have "trace arr0 (swap array j (j + 1)) (steps @ [bubble_step array i j])"
        using "1.prems" j by (intro trace_snoc) (auto simp: bubble_step_def)
      from "1.IH"(1)[OF True gt this] "1.prems"(2) show ?thesis
        using True gt by (simp add: bubble_inner.simps[of n i j])
    next
      case le: False
      from "1.IH"(2)[OF True le "1.prems"] show ?thesis
        using True le by (simp add: bubble_inner.simps[of n i j])
    qed
  qed
qed

lemma bubble_outer_trace:
  assumes "trace arr0 a s" "length a = n"
  shows "case bubble_outer n i a s of (a', s') \<Rightarrow> trace arr0 a' s'"
  using assms
proof (induction n i a s rule: bubble_outer.induct)
  case (1 n i array steps)
  show ?case
  proof (cases "int i < int n - 1")
    case False
    with "1.prems" show ?thesis by (simp add: bubble_outer.simps[of n i])
  next
    case True
    obtain a' s' sw' where r: "bubble_inner n i 0 array steps False = (a', s', sw')"
      by (cases "bubble_inner n i 0 array steps False") auto
    from bubble_inner_trace[OF "1.prems", of i 0 False] r have t: "trace arr0 a' s'" by simp
    then have l: "length a' = n" using "1.prems" by (simp add: trace_length)
    show ?thesis
    proof (cases sw')
      case sw: True
      from "1.IH"[OF True r[symmetric] refl _ t l] sw r True
      show ?thesis by (simp add: bubble_outer.simps[of n i])
    next
      case False
      with t r True show ?thesis by (simp add: bubble_outer.simps[of n i])
    qed
  qed
qed

subsection \<open>Selection sort\<close>

lemma selection_min_spec:
  assumes "i \<le> r" "r < j" "j \<le> n" "\<forall>m. i \<le> m \<and> m < j \<longrightarrow> a ! r \<le> a ! m"
    "\<forall>m. i \<le> m \<and> m < r \<longrightarrow> a ! r < a ! m"
  shows "i \<le> selection_min n j a r \<and> selection_min n j a r < n
    \<and> (\<forall>m. i \<le> m \<and> m < n \<longrightarrow> a ! selection_min n j a r \<le> a ! m)
    \<and> (\<forall>m. i \<le> m \<and> m < selection_min n j a r \<longrightarrow> a ! selection_min n j a r < a ! m)"
  using assms
proof (induction n j a r rule: selection_min.induct)
  case (1 n j array minIdx)
  show ?case
  proof (cases "j < n")
    case False
    have "selection_min n j array minIdx = minIdx"
      using False by (simp add: selection_min.simps[of n j])
    moreover from False "1.prems" have "j = n" by simp
    ultimately show ?thesis using "1.prems" by simp
  next
    case True
    let ?r = "if array ! j < array ! minIdx then j else minIdx"
    have a: "i \<le> ?r" "?r < j + 1" "j + 1 \<le> n" using "1.prems" True by auto
    have b: "\<forall>m. i \<le> m \<and> m < j + 1 \<longrightarrow> array ! ?r \<le> array ! m"
      using "1.prems"(4) by (auto simp: less_Suc_eq)
    have c: "\<forall>m. i \<le> m \<and> m < ?r \<longrightarrow> array ! ?r < array ! m"
      using "1.prems"(4,5) by (auto simp: less_Suc_eq) 
    from "1.IH"[OF True a b c] True show ?thesis
      by (simp add: selection_min.simps[of n j])
  qed
qed

lemma selection_min_found:
  assumes "i + 1 \<le> n"
  shows "i \<le> selection_min n (i + 1) a i \<and> selection_min n (i + 1) a i < n
    \<and> (\<forall>m. i \<le> m \<and> m < n \<longrightarrow> a ! selection_min n (i + 1) a i \<le> a ! m)
    \<and> (\<forall>m. i \<le> m \<and> m < selection_min n (i + 1) a i
          \<longrightarrow> a ! selection_min n (i + 1) a i < a ! m)"
  using assms by (intro selection_min_spec) (auto simp: le_less_Suc_eq)

lemma selection_outer_sorted:
  assumes "length a = n" "placed n i a"
  shows "sorted (fst (selection_outer n i a s))"
  using assms
proof (induction n i a s rule: selection_outer.induct)
  case (1 n i array steps)
  show ?case
  proof (cases "int i < int n - 1")
    case False
    have "sorted array"
      unfolding sorted_iff_nth_Suc
    proof (rule allI, rule impI)
      fix m assume "Suc m < length array"
      with False "1.prems" have "m < i \<and> m < Suc m \<and> Suc m < n" by linarith
      with "1.prems"(2) show "array ! m \<le> array ! Suc m" unfolding placed_def by blast
    qed
    with False show ?thesis by (simp add: selection_outer.simps[of n i])
  next
    case True
    define r where "r = selection_min n (i + 1) array i"
    have i: "i + 1 \<le> n" "i < n" using True by linarith+
    from selection_min_found[OF i(1), of array]
    have r: "i \<le> r" "r < n" "\<forall>m. i \<le> m \<and> m < n \<longrightarrow> array ! r \<le> array ! m"
      by (auto simp: r_def)
    show ?thesis
    proof (cases "r = i")
      case same: True
      have "placed n (i + 1) array"
        using "1.prems"(2) r(3) same unfolding placed_def by (auto simp: less_Suc_eq)
      have "selection_outer n i array steps = selection_outer n (i + 1) array steps"
        using True same unfolding r_def by (subst selection_outer.simps) (simp add: Let_def)
      with "1.IH"(2)[OF True r_def _ "1.prems"(1) \<open>placed n (i + 1) array\<close>] same
      show ?thesis by simp
    next
      case diff: False
      have "placed n (i + 1) (swap array i r)"
        unfolding placed_def
      proof (intro allI impI)
        fix k m assume k: "k < i + 1" and m: "k < m \<and> m < n"
        show "swap array i r ! k \<le> swap array i r ! m"
        proof (cases "k = i")
          case True
          with m r i "1.prems"(1) show ?thesis by (auto simp: nth_swap)
        next
          case False
          with k have "k < i" by simp
          with m r i "1.prems" diff show ?thesis
            unfolding placed_def by (auto simp: nth_swap)
        qed
      qed
      have "selection_outer n i array steps =
          selection_outer n (i + 1) (swap array i r) (steps @ [selection_step array i r])"
        using True diff unfolding r_def by (subst selection_outer.simps) (simp add: Let_def)
      with "1.IH"(1)[OF True r_def _ _ \<open>placed n (i + 1) (swap array i r)\<close>] diff
        "1.prems"(1)
      show ?thesis by simp
    qed
  qed
qed

lemma selection_outer_trace:
  assumes "trace arr0 a s" "length a = n"
  shows "case selection_outer n i a s of (a', s') \<Rightarrow> trace arr0 a' s'"
  using assms
proof (induction n i a s rule: selection_outer.induct)
  case (1 n i array steps)
  show ?case
  proof (cases "int i < int n - 1")
    case False
    with "1.prems" show ?thesis by (simp add: selection_outer.simps[of n i])
  next
    case True
    define r where "r = selection_min n (i + 1) array i"
    have i: "i + 1 \<le> n" "i < n" using True by linarith+
    from selection_min_found[OF i(1), of array] have r: "r < n" by (auto simp: r_def)
    show ?thesis
    proof (cases "r = i")
      case same: True
      have "selection_outer n i array steps = selection_outer n (i + 1) array steps"
        using True same unfolding r_def by (subst selection_outer.simps) (simp add: Let_def)
      with "1.IH"(2)[OF True r_def _ "1.prems"] same show ?thesis by simp
    next
      case diff: False
      have t: "trace arr0 (swap array i r) (steps @ [selection_step array i r])"
        using "1.prems" i r diff by (intro trace_snoc) (auto simp: selection_step_def)
      have "selection_outer n i array steps =
          selection_outer n (i + 1) (swap array i r) (steps @ [selection_step array i r])"
        using True diff unfolding r_def by (subst selection_outer.simps) (simp add: Let_def)
      with "1.IH"(1)[OF True r_def _ t] diff "1.prems"(2) show ?thesis by simp
    qed
  qed
qed

subsection \<open>Insertion sort\<close>

lemma inserting_swap:
  assumes "inserting i j a" "0 < j" "j \<le> i" "i < length a" "a ! (j - 1) > a ! j"
  shows "inserting i (j - 1) (swap a (j - 1) j)"
proof -
  have r: "j - 1 < length a" "j < length a" using assms by auto
  show ?thesis
    unfolding inserting_def
  proof (intro conjI allI impI)
    fix p q assume h: "p < q \<and> q \<le> i \<and> p \<noteq> j - 1 \<and> q \<noteq> j - 1"
    then have "q < length a" "p < length a" using assms by auto
    show "swap a (j - 1) j ! p \<le> swap a (j - 1) j ! q"
    proof (cases "p = j")
      case True
      moreover from assms(1) have "j - 1 < q \<and> q \<le> i \<and> j - 1 \<noteq> j \<and> q \<noteq> j
            \<longrightarrow> a ! (j - 1) \<le> a ! q"
        unfolding inserting_def by blast
      ultimately have "a ! (j - 1) \<le> a ! q" using assms(2) h by auto
      with True h r show ?thesis by (simp add: nth_swap)
    next
      case pj: False
      show ?thesis
      proof (cases "q = j")
        case True
        with h have "p < j - 1" by auto
        moreover from assms(1) have "p < j - 1 \<and> j - 1 \<le> i \<and> p \<noteq> j \<and> j - 1 \<noteq> j
            \<longrightarrow> a ! p \<le> a ! (j - 1)"
          unfolding inserting_def by blast
        ultimately have "a ! p \<le> a ! (j - 1)" using assms(2,3) by auto
        with True h pj r show ?thesis by (simp add: nth_swap)
      next
        case False
        with pj h assms(1) r show ?thesis unfolding inserting_def by (simp add: nth_swap)
      qed
    qed
  next
    fix q assume h: "j - 1 < q \<and> q \<le> i"
    show "swap a (j - 1) j ! (j - 1) \<le> swap a (j - 1) j ! q"
    proof (cases "q = j")
      case True
      with assms r show ?thesis by (simp add: nth_swap)
    next
      case False
      with h have "j < q" by auto
      with assms(1) h have "a ! j \<le> a ! q" unfolding inserting_def by auto
      with False h assms(2) r show ?thesis by (simp add: nth_swap)
    qed
  qed
qed

lemma inserting_done:
  assumes "inserting i j a" "j \<le> i" "\<not> (0 < j \<and> a ! (j - 1) > a ! j)"
  shows "sorted_upto (i + 1) a"
  unfolding sorted_upto_def
proof (intro allI impI)
  fix p q assume h: "p < q \<and> q < i + 1"
  show "a ! p \<le> a ! q"
  proof (cases "p = j")
    case True
    with assms(1) h show ?thesis unfolding inserting_def by auto
  next
    case pj: False
    show ?thesis
    proof (cases "q = j")
      case True
      with h assms(3) have j: "0 < j" "a ! (j - 1) \<le> a ! j" by auto
      show ?thesis
      proof (cases "p = j - 1")
        case True with j \<open>q = j\<close> show ?thesis by simp
      next
        case False
        with h \<open>q = j\<close> have "p < j - 1" by auto
        moreover from assms(1) have "p < j - 1 \<and> j - 1 \<le> i \<and> p \<noteq> j \<and> j - 1 \<noteq> j
            \<longrightarrow> a ! p \<le> a ! (j - 1)"
          unfolding inserting_def by blast
        ultimately have "a ! p \<le> a ! (j - 1)" using assms(2) j by auto
        with j \<open>q = j\<close> show ?thesis by simp
      qed
    next
      case False
      with pj h assms(1) show ?thesis unfolding inserting_def by auto
    qed
  qed
qed

lemma insertion_inner_sorted:
  assumes "inserting i j a" "j \<le> i" "i < length a"
  shows "case insertion_inner i j a s of (a', s') \<Rightarrow>
           length a' = length a \<and> sorted_upto (i + 1) a'"
  using assms
proof (induction i j a s rule: insertion_inner.induct)
  case (1 i j array steps)
  show ?case
  proof (cases "0 < j \<and> array ! (j - 1) > array ! j")
    case False
    have "insertion_inner i j array steps = (array, steps)"
      by (subst insertion_inner.simps, simp only: False if_False)
    with inserting_done[OF "1.prems"(1,2) False] show ?thesis by simp
  next
    case True
    have "inserting i (j - 1) (swap array (j - 1) j)"
      using inserting_swap[OF "1.prems"(1) _ "1.prems"(2,3)] True by simp
    moreover have "insertion_inner i j array steps =
        insertion_inner i (j - 1) (swap array (j - 1) j) (steps @ [insertion_step array i j])"
      by (subst insertion_inner.simps, simp only: True if_True simp_thms)
    ultimately show ?thesis using "1.IH"[OF True] "1.prems" True by simp
  qed
qed

lemma insertion_outer_sorted:
  assumes "length a = n" "sorted_upto i a" "0 < i"
  shows "sorted (fst (insertion_outer n i a s))"
  using assms
proof (induction n i a s rule: insertion_outer.induct)
  case (1 n i array steps)
  show ?case
  proof (cases "i < n")
    case False
    have "sorted array"
      unfolding sorted_iff_nth_Suc using "1.prems" False by (auto simp: sorted_upto_def)
    with False show ?thesis by (simp add: insertion_outer.simps[of n i])
  next
    case True
    obtain a' s' where r: "insertion_inner i i array steps = (a', s')"
      by (cases "insertion_inner i i array steps") auto
    have "inserting i i array"
      using "1.prems"(2) unfolding inserting_def sorted_upto_def by auto
    from insertion_inner_sorted[OF this, of steps] True "1.prems"(1) r
    have p: "length a' = n" "sorted_upto (i + 1) a'" by auto
    from "1.IH"[OF True r[symmetric] p] r True show ?thesis
      by (simp add: insertion_outer.simps[of n i])
  qed
qed

lemma insertion_inner_trace:
  assumes "trace arr0 a s" "j < length a"
  shows "case insertion_inner i j a s of (a', s') \<Rightarrow> trace arr0 a' s'"
  using assms
proof (induction i j a s rule: insertion_inner.induct)
  case (1 i j array steps)
  show ?case
  proof (cases "0 < j \<and> array ! (j - 1) > array ! j")
    case False
    have "insertion_inner i j array steps = (array, steps)"
      by (subst insertion_inner.simps, simp only: False if_False)
    with "1.prems" show ?thesis by simp
  next
    case True
    have "trace arr0 (swap array (j - 1) j) (steps @ [insertion_step array i j])"
      using "1.prems" True by (intro trace_snoc) (auto simp: insertion_step_def)
    moreover have "insertion_inner i j array steps =
        insertion_inner i (j - 1) (swap array (j - 1) j) (steps @ [insertion_step array i j])"
      by (subst insertion_inner.simps, simp only: True if_True simp_thms)
    ultimately show ?thesis using "1.IH"[OF True] "1.prems"(2) True by simp
  qed
qed

lemma insertion_outer_trace:
  assumes "trace arr0 a s" "length a = n"
  shows "case insertion_outer n i a s of (a', s') \<Rightarrow> trace arr0 a' s'"
  using assms
proof (induction n i a s rule: insertion_outer.induct)
  case (1 n i array steps)
  show ?case
  proof (cases "i < n")
    case False
    with "1.prems" show ?thesis by (simp add: insertion_outer.simps[of n i])
  next
    case True
    obtain a' s' where r: "insertion_inner i i array steps = (a', s')"
      by (cases "insertion_inner i i array steps") auto
    from insertion_inner_trace[OF "1.prems"(1), of i i] True "1.prems"(2) r
    have t: "trace arr0 a' s'" by auto
    then have l: "length a' = n" using "1.prems" by (simp add: trace_length)
    from "1.IH"[OF True r[symmetric] t l] r True show ?thesis
      by (simp add: insertion_outer.simps[of n i])
  qed
qed

subsection \<open>Plan lengths\<close>

lemma bubble_inner_length:
  "length (fst (snd (bubble_inner n i j a s sw))) \<le> length s + (n - i - 1 - j)"
proof (induction n i j a s sw rule: bubble_inner.induct)
  case (1 n i j array steps swapped)
  show ?case
  proof (cases "int j < int n - int i - 1")
    case False
    then show ?thesis by (simp add: bubble_inner.simps[of n i j])
  next
    case True
    then have j: "n - i - 1 - j = Suc (n - i - 1 - (j + 1))" by linarith
    show ?thesis
    proof (cases "array ! j > array ! (j + 1)")
      case gt: True
      from "1.IH"(1)[OF True gt] True gt j show ?thesis
        by (simp add: bubble_inner.simps[of n i j])
    next
      case le: False
      from "1.IH"(2)[OF True le] True le j show ?thesis
        by (simp add: bubble_inner.simps[of n i j])
    qed
  qed
qed

lemma bubble_outer_length:
  "2 * length (snd (bubble_outer n i a s)) \<le> 2 * length s + (n - i) * (n - i - 1)"
proof (induction n i a s rule: bubble_outer.induct)
  case (1 n i array steps)
  show ?case
  proof (cases "int i < int n - 1")
    case False
    then show ?thesis by (simp add: bubble_outer.simps[of n i])
  next
    case True
    obtain a' s' sw' where r: "bubble_inner n i 0 array steps False = (a', s', sw')"
      by (cases "bubble_inner n i 0 array steps False") auto
    define d where "d = n - i - 2"
    from True have d: "n = i + 1 + Suc d" unfolding d_def by linarith
    from bubble_inner_length[of n i 0 array steps False] r d
    have in1: "length s' \<le> length steps + Suc d" by simp
    show ?thesis
    proof (cases sw')
      case sw: True
      from "1.IH"[OF True r[symmetric] refl] sw
      have "2 * length (snd (bubble_outer n (i + 1) a' s'))
          \<le> 2 * length s' + (n - (i + 1)) * (n - (i + 1) - 1)" by simp
      also have "\<dots> = 2 * length s' + Suc d * d" using d by simp
      also have "\<dots> \<le> 2 * length steps + 2 * Suc d + Suc d * d" using in1 by simp
      also have "\<dots> = 2 * length steps + (n - i) * (n - i - 1)" using d by simp
      finally show ?thesis using r sw True by (simp add: bubble_outer.simps[of n i])
    next
      case False
      have "2 * length s' \<le> 2 * length steps + 2 * Suc d" using in1 by simp
      also have "\<dots> \<le> 2 * length steps + (n - i) * (n - i - 1)" using d by simp
      finally show ?thesis using r False True by (simp add: bubble_outer.simps[of n i])
    qed
  qed
qed

lemma selection_outer_length:
  "length (snd (selection_outer n i a s)) \<le> length s + (n - 1 - i)"
proof (induction n i a s rule: selection_outer.induct)
  case (1 n i array steps)
  show ?case
  proof (cases "int i < int n - 1")
    case False
    then show ?thesis by (simp add: selection_outer.simps[of n i])
  next
    case True
    then have i: "n - 1 - i = Suc (n - 1 - (i + 1))" by linarith
    define r where "r = selection_min n (i + 1) array i"
    show ?thesis
    proof (cases "r = i")
      case same: True
      have "selection_outer n i array steps = selection_outer n (i + 1) array steps"
        using True same unfolding r_def by (subst selection_outer.simps) (simp add: Let_def)
      with "1.IH"(2)[OF True r_def] same i show ?thesis by simp
    next
      case diff: False
      have "selection_outer n i array steps =
          selection_outer n (i + 1) (swap array i r) (steps @ [selection_step array i r])"
        using True diff unfolding r_def by (subst selection_outer.simps) (simp add: Let_def)
      with "1.IH"(1)[OF True r_def] diff i show ?thesis by simp
    qed
  qed
qed

lemma insertion_inner_length:
  "length (snd (insertion_inner i j a s)) \<le> length s + j"
proof (induction i j a s rule: insertion_inner.induct)
  case (1 i j array steps)
  show ?case
  proof (cases "0 < j \<and> array ! (j - 1) > array ! j")
    case False
    have "insertion_inner i j array steps = (array, steps)"
      by (subst insertion_inner.simps, simp only: False if_False)
    then show ?thesis by simp
  next
    case True
    have "insertion_inner i j array steps =
        insertion_inner i (j - 1) (swap array (j - 1) j) (steps @ [insertion_step array i j])"
      by (subst insertion_inner.simps, simp only: True if_True simp_thms)
    with "1.IH"[OF True] True show ?thesis by simp
  qed
qed

lemma insertion_outer_length:
  "i \<le> n \<Longrightarrow>
   2 * length (snd (insertion_outer n i a s)) + i * (i - 1) \<le> 2 * length s + n * (n - 1)"
proof (induction n i a s rule: insertion_outer.induct)
  case (1 n i array steps)
  show ?case
  proof (cases "i < n")
    case False
    then have "insertion_outer n i array steps = (array, steps)"
      by (simp add: insertion_outer.simps[of n i])
    moreover from False "1.prems" have "i = n" by simp
    ultimately show ?thesis by simp
  next
    case True
    obtain a' s' where r: "insertion_inner i i array steps = (a', s')"
      by (cases "insertion_inner i i array steps") auto
    from insertion_inner_length[of i i array steps] r
    have in1: "length s' \<le> length steps + i" by simp
    from "1.IH"[OF True r[symmetric]] True
    have "2 * length (snd (insertion_outer n (i + 1) a' s')) + (i + 1) * i
        \<le> 2 * length s' + n * (n - 1)" by simp
    moreover have "(i + 1) * i = i * (i - 1) + 2 * i" by (cases i) simp_all
    ultimately have "2 * length (snd (insertion_outer n (i + 1) a' s')) + i * (i - 1)
        \<le> 2 * length steps + n * (n - 1)" using in1 by linarith
    then show ?thesis using r True by (simp add: insertion_outer.simps[of n i])
  qed
qed

subsection \<open>Empty plans\<close>

lemma bubble_inner_sorted_input:
  assumes "sorted a" "length a = n"
  shows "bubble_inner n i j a s sw = (a, s, sw)"
  using assms
proof (induction n i j a s sw rule: bubble_inner.induct)
  case (1 n i j array steps swapped)
  show ?case
  proof (cases "int j < int n - int i - 1")
    case False
    then show ?thesis by (simp add: bubble_inner.simps[of n i j])
  next
    case True
    then have "j < j + 1" "j + 1 < length array" using "1.prems"(2) by linarith+
    with "1.prems"(1) have le: "\<not> array ! j > array ! (j + 1)"
      by (metis not_less sorted_iff_nth_mono_less)
    from "1.IH"(2)[OF True le "1.prems"] True le show ?thesis
      by (simp add: bubble_inner.simps[of n i j])
  qed
qed

lemma bubble_outer_sorted_input:
  assumes "sorted a" "length a = n"
  shows "bubble_outer n i a s = (a, s)"
  using bubble_inner_sorted_input[OF assms, of i 0 s False]
  by (simp add: bubble_outer.simps[of n i])

lemma insertion_inner_sorted_input:
  assumes "sorted a" "j < length a"
  shows "insertion_inner i j a s = (a, s)"
proof -
  have "\<not> (0 < j \<and> a ! (j - 1) > a ! j)"
  proof
    assume h: "0 < j \<and> a ! (j - 1) > a ! j"
    then have "j - 1 < j" by simp
    with assms have "a ! (j - 1) \<le> a ! j" by (simp add: sorted_iff_nth_mono_less)
    with h show False by simp
  qed
  then show ?thesis by (subst insertion_inner.simps) (simp only: if_False)
qed

lemma insertion_outer_sorted_input:
  assumes "sorted a" "length a = n"
  shows "insertion_outer n i a s = (a, s)"
  using assms
proof (induction n i a s rule: insertion_outer.induct)
  case (1 n i array steps)
  show ?case
  proof (cases "i < n")
    case False
    then show ?thesis by (simp add: insertion_outer.simps[of n i])
  next
    case True
    with "1.prems" have r: "insertion_inner i i array steps = (array, steps)"
      by (simp add: insertion_inner_sorted_input)
    from "1.IH"[OF True r[symmetric] "1.prems"] r True show ?thesis
      by (simp add: insertion_outer.simps[of n i])
  qed
qed

lemma selection_outer_grows:
  "length s \<le> length (snd (selection_outer n i a s))"
proof (induction n i a s rule: selection_outer.induct)
  case (1 n i array steps)
  show ?case
  proof (cases "int i < int n - 1")
    case False
    then show ?thesis by (simp add: selection_outer.simps[of n i])
  next
    case True
    define r where "r = selection_min n (i + 1) array i"
    show ?thesis
    proof (cases "r = i")
      case same: True
      have "selection_outer n i array steps = selection_outer n (i + 1) array steps"
        using True same unfolding r_def by (subst selection_outer.simps) (simp add: Let_def)
      with "1.IH"(2)[OF True r_def] same show ?thesis by simp
    next
      case diff: False
      have "selection_outer n i array steps =
          selection_outer n (i + 1) (swap array i r) (steps @ [selection_step array i r])"
        using True diff unfolding r_def by (subst selection_outer.simps) (simp add: Let_def)
      with "1.IH"(1)[OF True r_def] diff show ?thesis by simp
    qed
  qed
qed

lemma selection_outer_unchanged_iff:
  "snd (selection_outer n i a s) = s \<longleftrightarrow>
     (\<forall>k. i \<le> k \<and> int k < int n - 1 \<longrightarrow> selection_min n (k + 1) a k = k)"
proof (induction n i a s rule: selection_outer.induct)
  case (1 n i array steps)
  show ?case
  proof (cases "int i < int n - 1")
    case False
    then have "\<forall>k. i \<le> k \<and> int k < int n - 1 \<longrightarrow> selection_min n (k + 1) array k = k"
      by auto
    with False show ?thesis by (simp add: selection_outer.simps[of n i])
  next
    case True
    define r where "r = selection_min n (i + 1) array i"
    show ?thesis
    proof (cases "r = i")
      case same: True
      have eq: "selection_outer n i array steps = selection_outer n (i + 1) array steps"
        using True same unfolding r_def by (subst selection_outer.simps) (simp add: Let_def)
      have "(\<forall>k. i \<le> k \<and> int k < int n - 1 \<longrightarrow> selection_min n (k + 1) array k = k)
          \<longleftrightarrow> (\<forall>k. i + 1 \<le> k \<and> int k < int n - 1 \<longrightarrow> selection_min n (k + 1) array k = k)"
        (is "?L \<longleftrightarrow> ?R")
      proof
        assume ?L then show ?R by simp
      next
        assume R: ?R
        show ?L
        proof (intro allI impI)
          fix k assume k: "i \<le> k \<and> int k < int n - 1"
          show "selection_min n (k + 1) array k = k"
          proof (cases "k = i")
            case True with same show ?thesis by (simp add: r_def)
          next
            case False with k R show ?thesis by simp
          qed
        qed
      qed
      with "1.IH"(2)[OF True r_def] same eq show ?thesis by simp
    next
      case diff: False
      have eq: "selection_outer n i array steps =
          selection_outer n (i + 1) (swap array i r) (steps @ [selection_step array i r])"
        using True diff unfolding r_def by (subst selection_outer.simps) (simp add: Let_def)
      have "length (steps @ [selection_step array i r])
          \<le> length (snd (selection_outer n i array steps))"
        unfolding eq by (rule selection_outer_grows)
      then have "snd (selection_outer n i array steps) \<noteq> steps" by auto
      moreover have "\<not> (\<forall>k. i \<le> k \<and> int k < int n - 1 \<longrightarrow> selection_min n (k + 1) array k = k)"
        using diff True unfolding r_def by blast
      ultimately show ?thesis by simp
    qed
  qed
qed

lemma selection_min_in_place_iff:
  assumes "i + 1 \<le> n"
  shows "selection_min n (i + 1) a i = i \<longleftrightarrow> (\<forall>m. i < m \<and> m < n \<longrightarrow> a ! i \<le> a ! m)"
proof
  assume "selection_min n (i + 1) a i = i"
  with selection_min_found[OF assms, of a] show "\<forall>m. i < m \<and> m < n \<longrightarrow> a ! i \<le> a ! m"
    by auto
next
  assume h: "\<forall>m. i < m \<and> m < n \<longrightarrow> a ! i \<le> a ! m"
  define r where "r = selection_min n (i + 1) a i"
  from selection_min_found[OF assms, of a]
  have r: "i \<le> r" "r < n" "\<forall>m. i \<le> m \<and> m < r \<longrightarrow> a ! r < a ! m" by (auto simp: r_def)
  show "selection_min n (i + 1) a i = i"
  proof (rule ccontr)
    assume "selection_min n (i + 1) a i \<noteq> i"
    with r have "i < r" by (simp add: r_def)
    with r h have "a ! r < a ! i" "a ! i \<le> a ! r" by auto
    then show False by simp
  qed
qed

lemma all_in_place_iff_sorted:
  "(\<forall>i. int i < int (length a) - 1 \<longrightarrow> selection_min (length a) (i + 1) a i = i) \<longleftrightarrow> sorted a"
proof -
  have "(\<forall>i. int i < int (length a) - 1 \<longrightarrow> selection_min (length a) (i + 1) a i = i)
      \<longleftrightarrow> (\<forall>i. int i < int (length a) - 1 \<longrightarrow> (\<forall>m. i < m \<and> m < length a \<longrightarrow> a ! i \<le> a ! m))"
    by (intro all_cong1 imp_cong refl selection_min_in_place_iff) linarith
  also have "\<dots> \<longleftrightarrow> (\<forall>i m. i < m \<and> m < length a \<longrightarrow> a ! i \<le> a ! m)"
  proof
    assume h: "\<forall>i. int i < int (length a) - 1 \<longrightarrow> (\<forall>m. i < m \<and> m < length a \<longrightarrow> a ! i \<le> a ! m)"
    show "\<forall>i m. i < m \<and> m < length a \<longrightarrow> a ! i \<le> a ! m"
    proof (intro allI impI)
      fix i m assume m: "i < m \<and> m < length a"
      then have "int i < int (length a) - 1" by linarith
      with h m show "a ! i \<le> a ! m" by blast
    qed
  next
    assume "\<forall>i m. i < m \<and> m < length a \<longrightarrow> a ! i \<le> a ! m"
    then show "\<forall>i. int i < int (length a) - 1 \<longrightarrow> (\<forall>m. i < m \<and> m < length a \<longrightarrow> a ! i \<le> a ! m)"
      by blast
  qed
  also have "\<dots> \<longleftrightarrow> sorted a"
    by (auto simp: sorted_iff_nth_mono_less)
  finally show ?thesis .
qed

lemma in_place_iff_Min:
  assumes "i < length a"
  shows "(\<forall>m. i < m \<and> m < length a \<longrightarrow> a ! i \<le> a ! m) \<longleftrightarrow> a ! i = Min (set (drop i a))"
proof -
  have mem: "a ! i \<in> set (drop i a)"
    using assms by (metis Cons_nth_drop_Suc list.set_intros(1))
  have fin: "finite (set (drop i a))" "set (drop i a) \<noteq> {}" using mem by auto
  have "(\<forall>m. i < m \<and> m < length a \<longrightarrow> a ! i \<le> a ! m) \<longleftrightarrow> (\<forall>x \<in> set (drop i a). a ! i \<le> x)"
  proof
    assume h: "\<forall>m. i < m \<and> m < length a \<longrightarrow> a ! i \<le> a ! m"
    show "\<forall>x \<in> set (drop i a). a ! i \<le> x"
    proof
      fix x assume "x \<in> set (drop i a)"
      then obtain k where k: "k < length a - i" "x = a ! (i + k)"
        by (auto simp: in_set_conv_nth)
      with h show "a ! i \<le> x" by (cases k) auto
    qed
  next
    assume h: "\<forall>x \<in> set (drop i a). a ! i \<le> x"
    show "\<forall>m. i < m \<and> m < length a \<longrightarrow> a ! i \<le> a ! m"
    proof (intro allI impI)
      fix m assume m: "i < m \<and> m < length a"
      then have "a ! m = drop i a ! (m - i)" by simp
      moreover have "m - i < length (drop i a)" using m by auto
      ultimately have "a ! m \<in> set (drop i a)" by (metis nth_mem)
      with h show "a ! i \<le> a ! m" by blast
    qed
  qed
  also have "\<dots> \<longleftrightarrow> a ! i = Min (set (drop i a))"
    using mem fin by (metis Min_eqI Min_le)
  finally show ?thesis .
qed

subsection \<open>What the three generators return\<close>

lemma generateBubbleSortSteps_recorded: "recorded arr (generateBubbleSortSteps arr)"
  using bubble_outer_trace[OF trace_start refl, of arr 0]
  by (auto simp: generateBubbleSortSteps_def trace_def split: prod.splits)

lemma generateBubbleSortSteps_sorted: "sorted (replay (generateBubbleSortSteps arr) arr)"
proof -
  have "settled (length arr) 0 arr" by (simp add: settled_def)
  from bubble_outer_sorted[OF refl this, of "[]"] bubble_outer_trace[OF trace_start refl, of arr 0]
  show ?thesis
    by (auto simp: generateBubbleSortSteps_def trace_def split: prod.splits)
qed

lemma generateSelectionSortSteps_recorded: "recorded arr (generateSelectionSortSteps arr)"
  using selection_outer_trace[OF trace_start refl, of arr 0]
  by (auto simp: generateSelectionSortSteps_def trace_def split: prod.splits)

lemma generateSelectionSortSteps_sorted: "sorted (replay (generateSelectionSortSteps arr) arr)"
proof -
  have "placed (length arr) 0 arr" by (simp add: placed_def)
  from selection_outer_sorted[OF refl this, of "[]"]
    selection_outer_trace[OF trace_start refl, of arr 0]
  show ?thesis
    by (auto simp: generateSelectionSortSteps_def trace_def split: prod.splits)
qed

lemma generateInsertionSortSteps_recorded: "recorded arr (generateInsertionSortSteps arr)"
  using insertion_outer_trace[OF trace_start refl, of arr 1]
  by (auto simp: generateInsertionSortSteps_def trace_def split: prod.splits)

lemma generateInsertionSortSteps_sorted: "sorted (replay (generateInsertionSortSteps arr) arr)"
proof -
  have "sorted_upto 1 arr" by (simp add: sorted_upto_def)
  from insertion_outer_sorted[OF refl this, of "[]"]
    insertion_outer_trace[OF trace_start refl, of arr 1]
  show ?thesis
    by (auto simp: generateInsertionSortSteps_def trace_def split: prod.splits)
qed

lemma replay_Nil [simp]: "replay [] xs = xs"
  by (simp add: replay_def)

lemma generateBubbleSortSteps_empty_iff: "generateBubbleSortSteps arr = [] \<longleftrightarrow> sorted arr"
proof
  assume "generateBubbleSortSteps arr = []"
  with generateBubbleSortSteps_sorted[of arr] show "sorted arr" by simp
next
  assume "sorted arr"
  then show "generateBubbleSortSteps arr = []"
    by (simp add: generateBubbleSortSteps_def bubble_outer_sorted_input)
qed

lemma generateInsertionSortSteps_empty_iff: "generateInsertionSortSteps arr = [] \<longleftrightarrow> sorted arr"
proof
  assume "generateInsertionSortSteps arr = []"
  with generateInsertionSortSteps_sorted[of arr] show "sorted arr" by simp
next
  assume "sorted arr"
  then show "generateInsertionSortSteps arr = []"
    by (simp add: generateInsertionSortSteps_def insertion_outer_sorted_input)
qed

lemma boundaries: "i \<in> set [0..<length arr - 1] \<longleftrightarrow> int i < int (length arr) - 1"
  by auto

lemma search_finds_boundary_iff:
  "search_finds_boundary arr \<longleftrightarrow>
     (\<forall>i. int i < int (length arr) - 1 \<longrightarrow> selection_min (length arr) (i + 1) arr i = i)"
  unfolding search_finds_boundary_def list_all_iff boundaries[symmetric] by blast

lemma generateSelectionSortSteps_empty_iff:
  "generateSelectionSortSteps arr = [] \<longleftrightarrow> search_finds_boundary arr"
  unfolding generateSelectionSortSteps_def search_finds_boundary_iff
  using selection_outer_unchanged_iff[of "length arr" 0 arr "[]"] by simp

lemma search_finds_boundary_iff_sorted: "search_finds_boundary arr \<longleftrightarrow> sorted arr"
  unfolding search_finds_boundary_iff by (rule all_in_place_iff_sorted)

lemma search_finds_boundary_iff_minimum:
  "search_finds_boundary arr \<longleftrightarrow> boundary_holds_minimum arr"
proof -
  have "selection_min (length arr) (i + 1) arr i = i \<longleftrightarrow> arr ! i = Min (set (drop i arr))"
    if "i \<in> set [0..<length arr - 1]" for i
  proof -
    from that have i: "i + 1 \<le> length arr" "i < length arr" by auto
    show ?thesis
      using selection_min_in_place_iff[OF i(1), of arr] in_place_iff_Min[OF i(2)] by simp
  qed
  then show ?thesis
    unfolding search_finds_boundary_def boundary_holds_minimum_def list_all_iff by blast
qed

subsection \<open>Arrays of numbers\<close>

lemma swap_commute: "swap xs i j = swap xs j i"
  by (cases "i = j") (simp_all add: swap_def list_update_swap)

lemma js_get_map_Num: "i < length xs \<Longrightarrow> js_get (map Num xs) i = Num (xs ! i)"
  by (simp add: js_get_def)

lemma js_set_map_Num: "i < length xs \<Longrightarrow> js_set (map Num xs) i (Num v) = map Num (xs[i := v])"
  by (simp add: js_set_def map_update)

lemma js_swap_map_Num:
  "i < length xs \<Longrightarrow> j < length xs \<Longrightarrow> js_swap (map Num xs) i j = map Num (swap xs i j)"
  by (simp add: js_swap_def Let_def js_get_map_Num js_set_map_Num swap_def)

lemma apply_swaps_map_Num:
  "recorded xs sts \<Longrightarrow> apply_swaps sts (map Num xs) = map Num (replay sts xs)"
proof (induction sts arbitrary: xs)
  case Nil
  then show ?case by (simp add: apply_swaps_def replay_def)
next
  case (Cons st sts)
  then have "recorded (apply_step xs st) sts" by simp
  from Cons.IH[OF this] Cons.prems show ?case
    by (simp add: apply_swaps_def replay_def apply_step_def js_swap_map_Num)
qed

lemma every_ge_previous_map_Num: "every_ge_previous (map Num xs) = sorted xs"
proof -
  have "every_ge_previous (map Num xs)
      \<longleftrightarrow> (\<forall>idx<length xs. idx = 0 \<or> xs ! (idx - 1) \<le> xs ! idx)"
    by (auto simp: every_ge_previous_def list_all_iff js_get_map_Num)
  also have "\<dots> \<longleftrightarrow> (\<forall>i. Suc i < length xs \<longrightarrow> xs ! i \<le> xs ! Suc i)"
  proof
    assume h: "\<forall>idx<length xs. idx = 0 \<or> xs ! (idx - 1) \<le> xs ! idx"
    show "\<forall>i. Suc i < length xs \<longrightarrow> xs ! i \<le> xs ! Suc i"
    proof (intro allI impI)
      fix i assume "Suc i < length xs"
      with h have "Suc i = 0 \<or> xs ! (Suc i - 1) \<le> xs ! Suc i" by blast
      then show "xs ! i \<le> xs ! Suc i" by simp
    qed
  next
    assume h: "\<forall>i. Suc i < length xs \<longrightarrow> xs ! i \<le> xs ! Suc i"
    show "\<forall>idx<length xs. idx = 0 \<or> xs ! (idx - 1) \<le> xs ! idx"
    proof (intro allI impI)
      fix idx assume "idx < length xs"
      with h show "idx = 0 \<or> xs ! (idx - 1) \<le> xs ! idx" by (cases idx) auto
    qed
  qed
  also have "\<dots> \<longleftrightarrow> sorted xs" by (simp add: sorted_iff_nth_Suc)
  finally show ?thesis .
qed

lemma every_not_below_previous_iff: "every_not_below_previous xs = sorted xs"
proof -
  have "every_not_below_previous xs = every_ge_previous (map Num xs)"
    by (auto simp: every_not_below_previous_def every_ge_previous_def list_all_iff js_get_map_Num)
  then show ?thesis by (simp add: every_ge_previous_map_Num)
qed

lemma generateStepsForAlgorithm_cases:
  assumes "k \<in> {''bubble'', ''selection'', ''insertion''}"
  obtains plan where "generateStepsForAlgorithm (Some k) arr = Inr plan"
    "recorded arr plan" "sorted (replay plan arr)" "plan = [] \<longleftrightarrow> sorted arr"
proof -
  from assms consider "k = ''bubble''" | "k = ''selection''" | "k = ''insertion''" by auto
  then show ?thesis
  proof cases
    case 1
    then show ?thesis
      using that[of "generateBubbleSortSteps arr"]
      by (simp add: generateStepsForAlgorithm_def generateBubbleSortSteps_recorded
          generateBubbleSortSteps_sorted generateBubbleSortSteps_empty_iff)
  next
    case 2
    then show ?thesis
      using that[of "generateSelectionSortSteps arr"]
      by (simp add: generateStepsForAlgorithm_def generateSelectionSortSteps_recorded
          generateSelectionSortSteps_sorted generateSelectionSortSteps_empty_iff
          search_finds_boundary_iff_sorted)
  next
    case 3
    then show ?thesis
      using that[of "generateInsertionSortSteps arr"]
      by (simp add: generateStepsForAlgorithm_def generateInsertionSortSteps_recorded
          generateInsertionSortSteps_sorted generateInsertionSortSteps_empty_iff)
  qed
qed

section \<open>The session\<close>

subsection \<open>The random numbers of a game\<close>

lemma fill_numbers_result:
  assumes "fill_numbers numCount nums draws = Some (res, rest)" "distinct nums"
    "set nums \<subseteq> {1..20}" "length nums \<le> numCount"
  shows "distinct res \<and> set res \<subseteq> {1..20} \<and> length res = numCount"
  using assms
proof (induction numCount nums draws rule: fill_numbers.induct)
  case (1 numCount nums)
  then show ?case by (auto split: if_splits)
next
  case (2 numCount nums r draws)
  show ?case
  proof (cases "length nums < numCount")
    case False
    with "2.prems" show ?thesis by auto
  next
    case True
    let ?x = "int (r mod (20 - 1 + 1)) + 1"
    have x: "1 \<le> ?x" "?x \<le> 20" by auto
    have "distinct (set_add nums ?x)" using "2.prems"(2) by (simp add: set_add_def)
    moreover have "set (set_add nums ?x) \<subseteq> {1..20}"
      using "2.prems"(3) x unfolding set_add_def by auto
    moreover have "length (set_add nums ?x) \<le> numCount"
      using True by (simp add: set_add_def)
    moreover have "fill_numbers numCount (set_add nums ?x) draws = Some (res, rest)"
      using "2.prems"(1) True by simp
    ultimately show ?thesis using "2.IH"[OF True] by blast
  qed
qed

lemma shuffle_result:
  assumes "shuffle i arr draws = Some (res, rest)" "i \<le> length arr - 1"
  shows "distinct res = distinct arr \<and> length res = length arr \<and> set res = set arr"
  using assms
proof (induction i arbitrary: arr draws)
  case 0
  then show ?case by simp
next
  case (Suc i)
  from Suc.prems(1) obtain r draws' where d: "draws = r # draws'"
    by (cases draws) auto
  let ?j = "r mod (Suc i + 1)"
  have "?j < Suc i + 1" by (rule mod_less_divisor) simp
  with Suc.prems(2) have j: "?j < length arr" "Suc i < length arr" by linarith+
  from Suc.prems(1) d have "shuffle i (swap arr (Suc i) ?j) draws' = Some (res, rest)" by simp
  from Suc.IH[OF this] Suc.prems(2) j show ?case
    by (simp add: swap_def distinct_swap)
qed

lemma sorted_distinct_swap_first:
  assumes "sorted arr" "distinct arr" "2 \<le> length arr"
  shows "\<not> sorted (swap arr 0 1)"
proof
  assume s: "sorted (swap arr 0 1)"
  have len: "0 < length arr" "1 < length arr" using assms(3) by linarith+
  have "arr ! 0 \<le> arr ! 1" using assms(1) len by (simp add: sorted_iff_nth_mono)
  moreover from nth_eq_iff_index_eq[OF assms(2) len] have "arr ! 0 \<noteq> arr ! 1" by simp
  moreover have "swap arr 0 1 ! 0 \<le> swap arr 0 1 ! 1"
    using s len by (simp add: sorted_iff_nth_mono)
  then have "arr ! 1 \<le> arr ! 0" using len by (simp add: nth_swap)
  ultimately show False by simp
qed

lemma generateRandomNumbers_result:
  assumes "generateRandomNumbers draws = Some (arr, rest)"
  shows "5 \<le> length arr \<and> length arr \<le> 7 \<and> distinct arr \<and> set arr \<subseteq> {1..20}
    \<and> \<not> sorted arr"
proof -
  from assms obtain r draws1 where d: "draws = r # draws1"
    by (cases draws) (auto simp: generateRandomNumbers_def)
  define numCount where "numCount = r mod 3 + 5"
  from assms d obtain nums draws2 where
    f: "fill_numbers numCount [] draws1 = Some (nums, draws2)"
    by (auto simp: generateRandomNumbers_def numCount_def split: option.splits)
  from assms d f obtain arr0 where
    s: "shuffle (length nums - 1) nums draws2 = Some (arr0, rest)"
    and a: "arr = (if every_not_below_previous arr0 then swap arr0 0 1 else arr0)"
    by (auto simp: generateRandomNumbers_def numCount_def split: option.splits)
  from fill_numbers_result[OF f] have n: "distinct nums" "set nums \<subseteq> {1..20}" "length nums = numCount"
    by auto
  from shuffle_result[OF s] n have a0: "distinct arr0" "length arr0 = numCount" "set arr0 = set nums"
    by auto
  have c: "5 \<le> numCount" "numCount \<le> 7" unfolding numCount_def by auto
  show ?thesis
  proof (cases "sorted arr0")
    case True
    with a have "arr = swap arr0 0 1" by (simp add: every_not_below_previous_iff)
    moreover have "\<not> sorted (swap arr0 0 1)"
      using sorted_distinct_swap_first[OF True a0(1)] a0(2) c by simp
    moreover have "distinct (swap arr0 0 1)" "set (swap arr0 0 1) = set arr0"
      using a0 c by (simp_all add: swap_def distinct_swap)
    ultimately show ?thesis using a0 n c by simp
  next
    case False
    with a have "arr = arr0" by (simp add: every_not_below_previous_iff)
    with False a0 n c show ?thesis by simp
  qed
qed

subsection \<open>Invariants of the session\<close>

lemma generateStepsForAlgorithm_Inr:
  assumes "generateStepsForAlgorithm ko arr = Inr steps"
  shows "\<exists>k. ko = Some k \<and> k \<in> {''bubble'', ''selection'', ''insertion''}"
  using assms by (auto simp: generateStepsForAlgorithm_def split: if_splits)

lemma key_of_Some: "key_of obj = Some k \<Longrightarrow> \<exists>a. obj = Descriptor a"
  by (cases obj) auto

lemma replay_take_Suc:
  "c < length q \<Longrightarrow> replay (take (Suc c) q) arr = apply_step (replay (take c q) arr) (q ! c)"
  by (simp add: take_Suc_conv_app_nth replay_append) (simp add: replay_def)

lemma recorded_at:
  assumes "recorded arr q" "c < length q"
  shows "fst (indices (q ! c)) < length arr \<and> snd (indices (q ! c)) < length arr
    \<and> fst (indices (q ! c)) \<noteq> snd (indices (q ! c))
    \<and> step_values (q ! c) = (replay (take c q) arr ! fst (indices (q ! c)),
                            replay (take c q) arr ! snd (indices (q ! c)))"
proof -
  from assms(2) have "q = take c q @ q ! c # drop (Suc c) q" by (rule id_take_nth_drop)
  with assms(1) have "recorded arr (take c q @ q ! c # drop (Suc c) q)" by simp
  then have "recorded (replay (take c q) arr) (q ! c # drop (Suc c) q)"
    by (simp only: recorded_append)
  then show ?thesis by simp
qed

lemma startNewGame_cases:
  assumes "startNewGame algorithmKey draws now s0 = Some (outcome, s)"
  obtains (thrown) e arr where "outcome = Inl e" "state s = IDLE" "stepQueue s = []"
      "currentStepIndex s = 0" "numbers s = map Num arr" "originalNumbers s = map Num arr"
      "stats s = stats (reset s0)" "selectedIndex s = None"
  | (started) info arr rest a draws1 where "outcome = Inr info" "state s = PLAYING"
      "currentAlgorithm s = Some (Descriptor a)"
      "key a \<in> {''bubble'', ''selection'', ''insertion''}"
      "generateRandomNumbers draws1 = Some (arr, rest)"
      "generateStepsForAlgorithm (Some (key a)) arr = Inr (stepQueue s)"
      "currentStepIndex s = 0" "numbers s = map Num arr" "originalNumbers s = map Num arr"
      "stats s = (stats (reset s0))\<lparr>startTime := Some now\<rparr>" "selectedIndex s = None"
      "totalSteps info = length (stepQueue s)"
proof -
  define listed where "listed = (case algorithmKey of None \<Rightarrow> None
     | Some k \<Rightarrow> if k = [] then None else ALGORITHMS k)"
  define chosen where "chosen = (case listed of Some obj \<Rightarrow> Some (Some obj, draws)
     | None \<Rightarrow> selectRandomAlgorithm draws)"
  from assms obtain alg draws1 where c: "chosen = Some (alg, draws1)"
    unfolding startNewGame_def Let_def chosen_def listed_def by (auto split: option.splits)
  from assms c obtain arr rest where g: "generateRandomNumbers draws1 = Some (arr, rest)"
    unfolding startNewGame_def Let_def chosen_def listed_def
    by (auto split: option.splits)
  define s2 where "s2 = (reset s0)\<lparr>currentAlgorithm := alg, numbers := map Num arr,
      originalNumbers := map Num arr\<rparr>"
  show ?thesis
  proof (cases alg)
    case None
    with assms c g have "outcome = Inl TypeError" "s = s2"
      unfolding startNewGame_def Let_def chosen_def listed_def s2_def
      by (auto split: option.splits)
    then show ?thesis by (intro thrown[of TypeError arr]) (simp_all add: s2_def reset_def)
  next
    case (Some obj)
    show ?thesis
    proof (cases "generateStepsForAlgorithm (key_of obj) arr")
      case (Inl e)
      with assms c g Some have "outcome = Inl e" "s = s2"
        unfolding startNewGame_def Let_def chosen_def listed_def s2_def
        by (auto split: option.splits)
      then show ?thesis by (intro thrown[of e arr]) (simp_all add: s2_def reset_def)
    next
      case (Inr steps)
      define s3 where "s3 = s2\<lparr>stepQueue := steps, currentStepIndex := 0, state := PLAYING,
          stats := (stats s2)\<lparr>startTime := Some now\<rparr>\<rparr>"
      from assms c g Some Inr have o: "s = s3"
        "outcome = Inr \<lparr>info_numbers = numbers s3, info_algorithm = currentAlgorithm s3,
           totalSteps = length (stepQueue s3), firstHint = session_hint s3\<rparr>"
        unfolding startNewGame_def Let_def chosen_def listed_def s2_def s3_def
        by (auto split: option.splits)
      from generateStepsForAlgorithm_Inr[OF Inr] obtain k where
        k: "key_of obj = Some k" "k \<in> {''bubble'', ''selection'', ''insertion''}" by blast
      then obtain a where a: "obj = Descriptor a" "key a = k" by (cases obj) auto
      show ?thesis
        by (rule started[of _ a draws1 arr rest], rule o(2))
          (use o(1) a k Inr Some g in \<open>simp_all add: s3_def s2_def reset_def\<close>)
    qed
  qed
qed

lemma session_ok_start:
  assumes "startNewGame algorithmKey draws now s0 = Some (outcome, s)"
  shows "session_ok s"
  using assms
proof (cases rule: startNewGame_cases)
  case (thrown e arr)
  have "recorded arr []" by simp
  with thrown show ?thesis unfolding session_ok_def by (auto simp: reset_def)
next
  case (started info arr rest a draws1)
  from started(4) obtain plan where p: "generateStepsForAlgorithm (Some (key a)) arr = Inr plan"
    "recorded arr plan" "plan = [] \<longleftrightarrow> sorted arr"
    by (rule generateStepsForAlgorithm_cases)
  with started(6) have q: "stepQueue s = plan" by simp
  from generateRandomNumbers_result[OF started(5)] p(3) have "plan \<noteq> []" by simp
  with started p q show ?thesis unfolding session_ok_def by (auto simp: reset_def)
qed

lemma attemptSwap_inactive:
  "state s \<noteq> PLAYING \<Longrightarrow>
   attemptSwap index1 index2 now s =
     (Inr ((plain_result False ''Jocul nu este activ!'')\<lparr>correct := Some False\<rparr>), s)"
  by (simp add: attemptSwap_def)

lemma attemptSwap_wrong:
  assumes "state s = PLAYING" "currentStepIndex s < length (stepQueue s)"
    "\<not> validateMove (Some (stepQueue s ! currentStepIndex s)) index1 index2"
    "currentAlgorithm s = Some obj"
  shows "attemptSwap index1 index2 now s =
     (Inr ((plain_result False
             (getErrorMessage (key_of obj) (Some (stepQueue s ! currentStepIndex s))
                index1 index2))
           \<lparr>correct := Some False,
            result_indices := Some (index1, index2),
            expectedIndices := Some (indices (stepQueue s ! currentStepIndex s)),
            hint := Some (getNextMoveHint (key_of obj)
                            (Some (stepQueue s ! currentStepIndex s)))\<rparr>),
      s\<lparr>stats := (stats s)\<lparr>totalMoves := totalMoves (stats s) + 1,
                             incorrectMoves := incorrectMoves (stats s) + 1\<rparr>\<rparr>)"
  using assms
  by (simp add: attemptSwap_def Let_def getCurrentExpectedStep_def session_hint_def
      current_key_def)

lemma attemptSwap_right:
  assumes "state s = PLAYING" "currentStepIndex s < length (stepQueue s)"
    "validateMove (Some (stepQueue s ! currentStepIndex s)) index1 index2"
  shows "snd (attemptSwap index1 index2 now s) =
     (let s2 = s\<lparr>stats := (stats s)\<lparr>totalMoves := totalMoves (stats s) + 1,
                                     correctMoves := correctMoves (stats s) + 1\<rparr>,
                 numbers := js_swap (numbers s) (nat index1) (nat index2),
                 currentStepIndex := currentStepIndex s + 1\<rparr>
      in if currentStepIndex s + 1 \<ge> length (stepQueue s) then completeGame now s2 else s2)"
  using assms
  by (simp add: attemptSwap_def Let_def getCurrentExpectedStep_def)

lemma validateMove_positions:
  assumes "validateMove (Some st) index1 index2"
  shows "(nat index1 = fst (indices st) \<and> nat index2 = snd (indices st))
       \<or> (nat index1 = snd (indices st) \<and> nat index2 = fst (indices st))"
  using assms by (cases "indices st") auto

lemma session_ok_attemptSwap:
  assumes "session_ok s"
  shows "session_ok (snd (attemptSwap index1 index2 now s))"
proof (cases "state s = PLAYING")
  case False
  with assms show ?thesis by (simp add: attemptSwap_inactive)
next
  case True
  from assms obtain arr where arr: "originalNumbers s = map Num arr"
    "recorded arr (stepQueue s)"
    "numbers s = map Num (replay (take (currentStepIndex s) (stepQueue s)) arr)"
    unfolding session_ok_def by blast
  from assms True obtain a where c: "currentStepIndex s < length (stepQueue s)"
    and a: "currentAlgorithm s = Some (Descriptor a)"
    and t: "totalMoves (stats s) = correctMoves (stats s) + incorrectMoves (stats s)"
    unfolding session_ok_def by blast
  let ?st = "stepQueue s ! currentStepIndex s"
  let ?cur = "replay (take (currentStepIndex s) (stepQueue s)) arr"
  show ?thesis
  proof (cases "validateMove (Some ?st) index1 index2")
    case False
    from attemptSwap_wrong[OF True c False a, of now] arr c a t True
    show ?thesis unfolding session_ok_def by auto
  next
    case v: True
    from recorded_at[OF arr(2) c]
    have r: "fst (indices ?st) < length ?cur" "snd (indices ?st) < length ?cur" by simp_all
    from validateMove_positions[OF v] r
    have "js_swap (map Num ?cur) (nat index1) (nat index2) = map Num (apply_step ?cur ?st)"
      by (auto simp: js_swap_map_Num apply_step_def swap_commute)
    then have n: "js_swap (numbers s) (nat index1) (nat index2)
        = map Num (replay (take (Suc (currentStepIndex s)) (stepQueue s)) arr)"
      using arr(3) c by (simp add: replay_take_Suc)
    show ?thesis
      unfolding attemptSwap_right[OF True c v] session_ok_def Let_def
      using arr(1,2) c a t n by (auto simp: completeGame_def)
  qed
qed

lemma session_ok_selectElement:
  assumes "session_ok s"
  shows "session_ok (snd (selectElement index now s))"
proof -
  have sel: "session_ok (s\<lparr>selectedIndex := v\<rparr>)" for v
    using assms unfolding session_ok_def by simp
  show ?thesis
    using assms sel session_ok_attemptSwap[OF sel[of None], of _ index now]
    by (auto simp: selectElement_def split: option.splits)
qed

lemma reachable_session_ok: "reachable s \<Longrightarrow> session_ok s"
proof (induction rule: reachable.induct)
  case (start algorithmKey draws now s0 outcome s)
  then show ?case by (rule session_ok_start)
next
  case (select s index now outcome s')
  from session_ok_selectElement[OF select.IH, of index now] select.hyps(2)
  show ?case by simp
qed

subsection \<open>When the random numbers are delivered\<close>

lemma fill_numbers_full:
  "\<not> length nums < numCount \<Longrightarrow> fill_numbers numCount nums draws = Some (nums, draws)"
  by (cases draws) simp_all

lemma fill_numbers_returns:
  assumes "distinct nums"
    "numCount \<le> card (set nums \<union> (\<lambda>r. int (r mod 20) + 1) ` set ds)"
  shows "\<exists>res k. k \<le> length ds
    \<and> fill_numbers numCount nums (ds @ extra) = Some (res, drop k ds @ extra)"
  using assms
proof (induction ds arbitrary: nums)
  case Nil
  then have "\<not> length nums < numCount" by (simp add: distinct_card)
  from fill_numbers_full[OF this, of extra] show ?case by simp
next
  case (Cons r ds)
  show ?case
  proof (cases "length nums < numCount")
    case False
    from fill_numbers_full[OF this, of "(r # ds) @ extra"] show ?thesis
      by (intro exI[of _ nums] exI[of _ 0]) simp
  next
    case True
    let ?x = "int (r mod 20) + 1"
    have "distinct (set_add nums ?x)" using Cons.prems(1) by (simp add: set_add_def)
    moreover have "set (set_add nums ?x) \<union> (\<lambda>r. int (r mod 20) + 1) ` set ds
        = set nums \<union> (\<lambda>r. int (r mod 20) + 1) ` set (r # ds)"
      by (auto simp: set_add_def)
    with Cons.prems(2)
    have "numCount \<le> card (set (set_add nums ?x) \<union> (\<lambda>r. int (r mod 20) + 1) ` set ds)"
      by simp
    ultimately obtain res k where k: "k \<le> length ds"
      "fill_numbers numCount (set_add nums ?x) (ds @ extra) = Some (res, drop k ds @ extra)"
      using Cons.IH by blast
    with True show ?thesis
      by (intro exI[of _ res] exI[of _ "Suc k"]) simp
  qed
qed

lemma shuffle_returns:
  "i \<le> length draws \<Longrightarrow> \<exists>res. shuffle i arr draws = Some (res, drop i draws)"
proof (induction i arbitrary: arr draws)
  case 0
  then show ?case by simp
next
  case (Suc i)
  then obtain r draws' where d: "draws = r # draws'" "i \<le> length draws'"
    by (cases draws) auto
  from Suc.IH[OF d(2), of "swap arr (Suc i) (r mod (Suc i + 1))"] d(1)
  show ?case by simp
qed

lemma generateRandomNumbers_returns:
  assumes "7 \<le> card ((\<lambda>r. r mod 20) ` set ds)" "6 \<le> length extra"
  shows "generateRandomNumbers (r # ds @ extra) \<noteq> None"
proof -
  define numCount where "numCount = r mod 3 + 5"
  have c: "numCount \<le> 7" unfolding numCount_def by simp
  have "inj (\<lambda>n. int n + 1)" by (simp add: inj_def)
  then have "card ((\<lambda>n. int n + 1) ` ((\<lambda>r. r mod 20) ` set ds)) = card ((\<lambda>r. r mod 20) ` set ds)"
    by (intro card_image) (auto simp: inj_on_def)
  moreover have "(\<lambda>n. int n + 1) ` ((\<lambda>r. r mod 20) ` set ds) = (\<lambda>r. int (r mod 20) + 1) ` set ds"
    by (simp add: image_image)
  ultimately have "numCount \<le> card (set [] \<union> (\<lambda>r. int (r mod 20) + 1) ` set ds)"
    using assms(1) c by simp
  from fill_numbers_returns[OF _ this, of extra] obtain res k where
    f: "fill_numbers numCount [] (ds @ extra) = Some (res, drop k ds @ extra)" by auto
  from fill_numbers_result[OF f] have "length res = numCount" by simp
  with c assms(2) have "length res - 1 \<le> length (drop k ds @ extra)" by simp
  from shuffle_returns[OF this, of res] obtain arr where
    "shuffle (length res - 1) res (drop k ds @ extra)
       = Some (arr, drop (length res - 1) (drop k ds @ extra))" by blast
  with f show ?thesis
    by (simp add: generateRandomNumbers_def numCount_def)
qed

lemma unsorted_plans_nonempty:
  assumes "\<not> sorted arr"
  shows "generateBubbleSortSteps arr \<noteq> []" "generateSelectionSortSteps arr \<noteq> []"
    "generateInsertionSortSteps arr \<noteq> []"
  using assms
  by (simp_all add: generateBubbleSortSteps_empty_iff generateInsertionSortSteps_empty_iff
      generateSelectionSortSteps_empty_iff search_finds_boundary_iff_sorted)

lemma started_has_steps:
  assumes "startNewGame algorithmKey draws now s0 = Some (Inr info, s)"
  shows "stepQueue s \<noteq> [] \<and> 0 < totalSteps info"
  using assms
proof (cases rule: startNewGame_cases)
  case (thrown e arr)
  then show ?thesis by simp
next
  case (started info' arr rest a draws1)
  from started(4) obtain plan where p: "generateStepsForAlgorithm (Some (key a)) arr = Inr plan"
    "plan = [] \<longleftrightarrow> sorted arr"
    by (rule generateStepsForAlgorithm_cases)
  from generateRandomNumbers_result[OF started(5)] p(2) have "plan \<noteq> []" by simp
  with p(1) started(1,6,12) show ?thesis by simp
qed

subsection \<open>Error messages\<close>

lemma getErrorMessage_differs:
  "getErrorMessage (Some ''bubble'') (Some st) i j \<noteq> getErrorMessage (Some ''selection'') (Some st) i j"
  "getErrorMessage (Some ''bubble'') (Some st) i j \<noteq> getErrorMessage (Some ''insertion'') (Some st) i j"
  "getErrorMessage (Some ''selection'') (Some st) i j \<noteq> getErrorMessage (Some ''insertion'') (Some st) i j"
  by (simp_all add: s_comma_def a_breve_def t_comma_def split: prod.splits)

subsection \<open>Identifiers outside the table\<close>

lemma reset_any: "reset s = gameEngine"
  by (simp add: reset_def gameEngine_def)

lemma startNewGame_unlisted:
  assumes "ALGORITHMS k = None"
  shows "startNewGame (Some k) draws now s = startNewGame None draws now s"
  using assms by (simp add: startNewGame_def)

lemma selectRandomAlgorithm_descriptor:
  assumes "selectRandomAlgorithm draws = Some (alg, rest)"
  shows "\<exists>a. alg = Some (Descriptor a) \<and> key a \<in> {''bubble'', ''selection'', ''insertion''}"
proof -
  from assms obtain r where "draws = r # rest" "alg = ALGORITHMS (ALGORITHMS_keys ! (r mod 3))"
    by (cases draws) (auto simp: selectRandomAlgorithm_def ALGORITHMS_keys_def)
  moreover have "r mod 3 = 0 \<or> r mod 3 = 1 \<or> r mod 3 = 2" by linarith
  ultimately show ?thesis
    by (auto simp: ALGORITHMS_keys_def ALGORITHMS_def bubble_def selection_def insertion_def)
qed

lemma startNewGame_None_starts:
  assumes "startNewGame None draws now s = Some (outcome, s')"
  shows "(\<exists>info. outcome = Inr info) \<and> state s' = PLAYING
    \<and> (\<exists>a. currentAlgorithm s' = Some (Descriptor a)
           \<and> key a \<in> {''bubble'', ''selection'', ''insertion''})
    \<and> stats s' = (stats gameEngine)\<lparr>startTime := Some now\<rparr>
    \<and> currentStepIndex s' = 0"
proof -
  from assms obtain alg draws1 where c: "selectRandomAlgorithm draws = Some (alg, draws1)"
    by (auto simp: startNewGame_def split: option.splits)
  from selectRandomAlgorithm_descriptor[OF c] obtain a where
    a: "alg = Some (Descriptor a)" "key a \<in> {''bubble'', ''selection'', ''insertion''}" by blast
  from assms c obtain arr rest where g: "generateRandomNumbers draws1 = Some (arr, rest)"
    by (auto simp: startNewGame_def split: option.splits)
  from a(2) obtain plan where p: "generateStepsForAlgorithm (Some (key a)) arr = Inr plan"
    by (rule generateStepsForAlgorithm_cases)
  from assms c a g p show ?thesis
    by (auto simp: startNewGame_def Let_def reset_any)
qed

subsection \<open>The example game\<close>

lemma example_game_started:
  "map_option snd (startNewGame None example_draws 0 gameEngine) = Some example_game"
  by code_simp

lemma example_game_reachable: "reachable example_game"
proof -
  from example_game_started obtain outcome where
    "startNewGame None example_draws 0 gameEngine = Some (outcome, example_game)"
    by (cases "startNewGame None example_draws 0 gameEngine") auto
  then show ?thesis by (rule reachable.start)
qed

lemma recorded_take: "recorded arr q \<Longrightarrow> recorded arr (take c q)"
  using recorded_append[of arr "take c q" "drop c q"] by simp

lemma reachable_selectElement: "reachable s \<Longrightarrow> reachable (snd (selectElement index now s))"
  by (rule reachable.select[where outcome = "fst (selectElement index now s)"]) simp_all

section \<open>Plans sort\<close>

text \<open>
  Claim C1. For each of the identifiers bubble, selection and insertion and every list of
  numbers with at least two elements (duplicates allowed), \<open>generateStepsForAlgorithm\<close>
  returns a plan, and applying the swaps of that plan in order to the input yields a list
  of numbers in non-decreasing order (which the session's own check accepts as sorted).
\<close>

theorem plan_sorts:
  assumes "k \<in> {''bubble'', ''selection'', ''insertion''}" and "2 \<le> length arr"
  shows "\<exists>plan ys. generateStepsForAlgorithm (Some k) arr = Inr plan
           \<and> apply_swaps plan (map Num arr) = map Num ys \<and> sorted ys
           \<and> every_ge_previous (apply_swaps plan (map Num arr))"
proof -
  from assms(1) obtain plan where p: "generateStepsForAlgorithm (Some k) arr = Inr plan"
    "recorded arr plan" "sorted (replay plan arr)"
    by (rule generateStepsForAlgorithm_cases)
  from p(2) have "apply_swaps plan (map Num arr) = map Num (replay plan arr)"
    by (rule apply_swaps_map_Num)
  with p(1,3) show ?thesis by (auto simp: every_ge_previous_map_Num)
qed

theorem plan_sorts_witness:
  "''selection'' \<in> {''bubble'', ''selection'', ''insertion''} \<and> 2 \<le> length [4, 1, 3 :: int]
   \<and> (\<exists>plan ys. generateStepsForAlgorithm (Some ''selection'') [4, 1, 3] = Inr plan
         \<and> apply_swaps plan (map Num [4, 1, 3]) = map Num ys \<and> sorted ys
         \<and> every_ge_previous (apply_swaps plan (map Num [4, 1, 3])))"
  using plan_sorts[of "''selection''" "[4, 1, 3]"] by simp

section \<open>Unrecognized algorithm identifiers\<close>

text \<open>
  Claim C2, amended. Let an identifier name nothing in the algorithm table (for
  example \<open>quicksort\<close>). Then \<open>changeAlgorithm\<close> raises the unrecognized-algorithm error and
  leaves the whole session as it was. \<open>startNewGame\<close> with that identifier raises nothing:
  it does what \<open>startNewGame\<close> without an identifier does, so whenever it returns it has
  discarded the previous session and started a game on one of the three algorithms.
\<close>

theorem unlisted_algorithm:
  assumes "ALGORITHMS k = None"
  shows "changeAlgorithm k draws now s = Some (Inl (Error (''Algoritm necunoscut: '' @ k)), s)
    \<and> startNewGame (Some k) draws now s = startNewGame None draws now s
    \<and> (startNewGame (Some k) draws now s = Some (outcome, s') \<longrightarrow>
         (\<exists>info. outcome = Inr info) \<and> state s' = PLAYING
         \<and> (\<exists>a. currentAlgorithm s' = Some (Descriptor a)
                \<and> key a \<in> {''bubble'', ''selection'', ''insertion''})
         \<and> stats s' = (stats gameEngine)\<lparr>startTime := Some now\<rparr>
         \<and> currentStepIndex s' = 0)"
  using assms startNewGame_None_starts[of draws now s outcome s']
  by (simp add: changeAlgorithm_def startNewGame_unlisted)

theorem unlisted_algorithm_witness:
  "ALGORITHMS ''quicksort'' = None
   \<and> changeAlgorithm ''quicksort'' example_draws 7 game_5_3_4
       = Some (Inl (Error ''Algoritm necunoscut: quicksort''), game_5_3_4)
   \<and> startNewGame (Some ''quicksort'') example_draws 7 game_5_3_4
       = startNewGame None example_draws 7 game_5_3_4
   \<and> map_option (state \<circ> snd) (startNewGame (Some ''quicksort'') example_draws 7 game_5_3_4)
       = Some PLAYING"
proof -
  have q: "ALGORITHMS ''quicksort'' = None"
    by (simp add: ALGORITHMS_def Object_prototype_names_def)
  have "startNewGame (Some ''quicksort'') example_draws 7 game_5_3_4 \<noteq> None"
    by code_simp
  then obtain outcome s' where
    o: "startNewGame (Some ''quicksort'') example_draws 7 game_5_3_4 = Some (outcome, s')"
    by (cases "startNewGame (Some ''quicksort'') example_draws 7 game_5_3_4") auto
  note u = unlisted_algorithm[OF q, of example_draws 7 game_5_3_4 outcome s']
  from u o have "state s' = PLAYING" by blast
  with o have "map_option (state \<circ> snd)
      (startNewGame (Some ''quicksort'') example_draws 7 game_5_3_4) = Some PLAYING"
    by simp
  with u q show ?thesis by simp
qed

text \<open>
  The claim as it is written, that \<open>startNewGame\<close> raises the error and leaves the
  session untouched, fails. In the bubble sort game on \<open>[5, 3, 4]\<close>, \<open>startNewGame\<close>
  with \<open>quicksort\<close> returns (its outcome is not on the error side of the sum), and the
  session then holds five new numbers, their plan and a new start time.
\<close>

theorem startNewGame_quicksort_counterexample:
  "map_option (isl \<circ> fst) (startNewGame (Some ''quicksort'') example_draws 7 game_5_3_4)
     = Some False
   \<and> numbers game_5_3_4 = [Num 5, Num 3, Num 4]
   \<and> map_option (numbers \<circ> snd) (startNewGame (Some ''quicksort'') example_draws 7 game_5_3_4)
       = Some [Num 2, Num 1, Num 3, Num 4, Num 5]
   \<and> map_option (stepQueue \<circ> snd) (startNewGame (Some ''quicksort'') example_draws 7 game_5_3_4)
       = Some (generateBubbleSortSteps [2, 1, 3, 4, 5])
   \<and> map_option (startTime \<circ> stats \<circ> snd)
         (startNewGame (Some ''quicksort'') example_draws 7 game_5_3_4)
       = Some (Some 7)
   \<and> startTime (stats game_5_3_4) = Some 0"
  by code_simp

section \<open>Statistics\<close>

text \<open>
  Claim C3. In every session reached from \<open>startNewGame\<close> by calls of
  \<open>selectElement\<close>, and after every swap attempt made in such a session, the total
  number of moves is the sum of the correct and the incorrect moves.
\<close>

theorem moves_add_up:
  assumes "reachable s"
  shows "totalMoves (stats s) = correctMoves (stats s) + incorrectMoves (stats s)
    \<and> totalMoves (stats (snd (attemptSwap index1 index2 now s)))
        = correctMoves (stats (snd (attemptSwap index1 index2 now s)))
          + incorrectMoves (stats (snd (attemptSwap index1 index2 now s)))
    \<and> totalMoves (stats (snd (selectElement index now s)))
        = correctMoves (stats (snd (selectElement index now s)))
          + incorrectMoves (stats (snd (selectElement index now s)))"
proof -
  from assms have ok: "session_ok s" by (rule reachable_session_ok)
  from session_ok_attemptSwap[OF ok, of index1 index2 now]
    session_ok_selectElement[OF ok, of index now] ok
  show ?thesis unfolding session_ok_def by blast
qed

theorem moves_add_up_witness:
  "reachable example_game
   \<and> totalMoves (stats (snd (attemptSwap 0 2 7 example_game))) = 1
   \<and> correctMoves (stats (snd (attemptSwap 0 2 7 example_game))) = 0
   \<and> incorrectMoves (stats (snd (attemptSwap 0 2 7 example_game))) = 1
   \<and> totalMoves (stats (snd (selectElement 1 7 example_game))) = 0"
proof -
  have "totalMoves (stats (snd (attemptSwap 0 2 7 example_game))) = 1
    \<and> correctMoves (stats (snd (attemptSwap 0 2 7 example_game))) = 0
    \<and> totalMoves (stats (snd (selectElement 1 7 example_game))) = 0"
    by code_simp
  with moves_add_up[OF example_game_reachable, of 0 2 7 1] example_game_reachable
  show ?thesis by simp
qed

section \<open>A game of bubble sort\<close>

text \<open>
  Claim C4. For bubble sort on \<open>[5, 3, 4]\<close> the plan is the swap of positions
  \<open>(0, 1)\<close> with values \<open>(5, 3)\<close> followed by the swap of positions \<open>(1, 2)\<close> with
  values \<open>(5, 4)\<close>. In a session with that plan, the attempt \<open>(0, 1)\<close> succeeds and leaves
  \<open>[3, 5, 4]\<close> with the cursor at 1; the attempt \<open>(0, 2)\<close> is then rejected as incorrect,
  with expected indices \<open>(1, 2)\<close> and the sequence and cursor unchanged; the attempt
  \<open>(1, 2)\<close> then succeeds and leaves \<open>[3, 4, 5]\<close>, the cursor at 2, which is the length of
  the plan, and the state completed.
\<close>

theorem bubble_5_3_4_scenario:
  "map (\<lambda>st. (type st, indices st, step_values st)) (generateBubbleSortSteps [5, 3, 4])
     = [(SWAP, (0, 1), (5, 3)), (SWAP, (1, 2), (5, 4))]
   \<and> (\<exists>r1 s1 r2 s2 r3 s3.
         attemptSwap 0 1 t1 game_5_3_4 = (Inr r1, s1)
         \<and> success r1 \<and> correct r1 = Some True
         \<and> numbers s1 = map Num [3, 5, 4] \<and> currentStepIndex s1 = 1 \<and> state s1 = PLAYING
         \<and> attemptSwap 0 2 t2 s1 = (Inr r2, s2)
         \<and> \<not> success r2 \<and> correct r2 = Some False \<and> expectedIndices r2 = Some (1, 2)
         \<and> numbers s2 = numbers s1 \<and> currentStepIndex s2 = currentStepIndex s1
         \<and> attemptSwap 1 2 t3 s2 = (Inr r3, s3)
         \<and> success r3 \<and> correct r3 = Some True \<and> completed r3 = Some True
         \<and> numbers s3 = map Num [3, 4, 5] \<and> currentStepIndex s3 = 2
         \<and> length (stepQueue s3) = 2 \<and> state s3 = COMPLETED)"
proof -
  have plan: "generateBubbleSortSteps [5, 3, 4]
      = [bubble_step [5, 3, 4] 0 0, bubble_step [3, 5, 4] 0 1]"
    by (simp add: generateBubbleSortSteps_def bubble_outer.simps bubble_inner.simps swap_def
        bubble_step_def)
  have steps: "indices (bubble_step [5, 3, 4] 0 0) = (0, 1)"
    "step_values (bubble_step [5, 3, 4] 0 0) = (5, 3)"
    "indices (bubble_step [3, 5, 4] 0 1) = (1, 2)"
    "step_values (bubble_step [3, 5, 4] 0 1) = (5, 4)"
    "type (bubble_step [5, 3, 4] 0 0) = SWAP" "type (bubble_step [3, 5, 4] 0 1) = SWAP"
    by (simp_all add: bubble_step_def)
  define s1 where "s1 = snd (attemptSwap 0 1 t1 game_5_3_4)"
  define s2 where "s2 = snd (attemptSwap 0 2 t2 s1)"
  define s3 where "s3 = snd (attemptSwap 1 2 t3 s2)"
  have a1: "\<exists>r1. attemptSwap 0 1 t1 game_5_3_4 = (Inr r1, s1) \<and> success r1
      \<and> correct r1 = Some True"
    and n1: "numbers s1 = map Num [3, 5, 4]" "currentStepIndex s1 = 1" "state s1 = PLAYING"
      "stepQueue s1 = [bubble_step [5, 3, 4] 0 0, bubble_step [3, 5, 4] 0 1]"
      "currentAlgorithm s1 = Some (Descriptor bubble)"
    unfolding s1_def
    by (simp_all add: attemptSwap_def game_5_3_4_def plan bubble_step_def getCurrentExpectedStep_def
        Let_def plain_result_def js_swap_def js_get_def js_set_def completeGame_def)
  have a2: "\<exists>r2. attemptSwap 0 2 t2 s1 = (Inr r2, s2) \<and> \<not> success r2
      \<and> correct r2 = Some False \<and> expectedIndices r2 = Some (1, 2)"
    and n2: "numbers s2 = numbers s1" "currentStepIndex s2 = currentStepIndex s1"
      "state s2 = PLAYING" "stepQueue s2 = stepQueue s1"
    unfolding s2_def
    by (simp_all add: attemptSwap_def n1 bubble_step_def getCurrentExpectedStep_def
        Let_def plain_result_def del: getErrorMessage.simps getNextMoveHint.simps)
  have a3: "\<exists>r3. attemptSwap 1 2 t3 s2 = (Inr r3, s3) \<and> success r3
      \<and> correct r3 = Some True \<and> completed r3 = Some True"
    and n3: "numbers s3 = map Num [3, 4, 5]" "currentStepIndex s3 = 2"
      "length (stepQueue s3) = 2" "state s3 = COMPLETED"
    unfolding s3_def
    by (simp_all add: attemptSwap_def n1 n2 bubble_step_def getCurrentExpectedStep_def
        Let_def plain_result_def js_swap_def js_get_def js_set_def completeGame_def
        del: getNextMoveHint.simps)
  from plan steps a1 n1 a2 n2 a3 n3 show ?thesis by auto
qed

section \<open>Empty plans\<close>

text \<open>
  Claim C5. For every input, the plan of the bubble variant and the plan of the insertion
  variant are empty exactly when the input is already non-decreasing. The plan of the
  selection variant is empty exactly when, at every boundary position, the search for the
  minimum of the suffix returns the boundary itself, that is, when the value at every
  boundary is the minimum of its suffix; for distinct values this is the same as the input
  being sorted.
\<close>

theorem empty_plan_iff:
  "(generateBubbleSortSteps arr = [] \<longleftrightarrow> sorted arr)
   \<and> (generateInsertionSortSteps arr = [] \<longleftrightarrow> sorted arr)
   \<and> (generateSelectionSortSteps arr = [] \<longleftrightarrow> search_finds_boundary arr)
   \<and> (search_finds_boundary arr \<longleftrightarrow> boundary_holds_minimum arr)
   \<and> (distinct arr \<longrightarrow> (search_finds_boundary arr \<longleftrightarrow> sorted arr))"
  using generateBubbleSortSteps_empty_iff[of arr] generateInsertionSortSteps_empty_iff[of arr]
    generateSelectionSortSteps_empty_iff[of arr] search_finds_boundary_iff_minimum[of arr]
    search_finds_boundary_iff_sorted[of arr]
  by simp

theorem empty_plan_iff_witness:
  "distinct [1, 2, 3 :: int] \<and> search_finds_boundary [1, 2, 3] \<and> sorted [1, 2, 3 :: int]
   \<and> boundary_holds_minimum [1, 2, 3]
   \<and> generateBubbleSortSteps [1, 2, 3] = [] \<and> generateInsertionSortSteps [1, 2, 3] = []
   \<and> generateSelectionSortSteps [1, 2, 3] = []"
  using empty_plan_iff[of "[1, 2, 3]"] by auto

section \<open>Plan lengths\<close>

text \<open>
  Claim C6. For an input of length \<open>n\<close> the plan has at most \<open>n (n - 1) / 2\<close> steps for
  the bubble variant, at most \<open>n - 1\<close> for the selection variant and at most
  \<open>n (n - 1) / 2\<close> for the insertion variant.
\<close>

theorem plan_length_bounds:
  "length (generateBubbleSortSteps arr) \<le> length arr * (length arr - 1) div 2
   \<and> length (generateSelectionSortSteps arr) \<le> length arr - 1
   \<and> length (generateInsertionSortSteps arr) \<le> length arr * (length arr - 1) div 2"
proof (intro conjI)
  from bubble_outer_length[of "length arr" 0 arr "[]"]
  show "length (generateBubbleSortSteps arr) \<le> length arr * (length arr - 1) div 2"
    by (simp add: generateBubbleSortSteps_def)
next
  from selection_outer_length[of "length arr" 0 arr "[]"]
  show "length (generateSelectionSortSteps arr) \<le> length arr - 1"
    by (simp add: generateSelectionSortSteps_def)
next
  show "length (generateInsertionSortSteps arr) \<le> length arr * (length arr - 1) div 2"
  proof (cases "length arr")
    case 0
    then show ?thesis
      by (simp add: generateInsertionSortSteps_def insertion_outer.simps[of 0 "Suc 0"])
  next
    case (Suc m)
    then have "1 \<le> length arr" by simp
    from insertion_outer_length[OF this, of arr "[]"] show ?thesis
      by (simp add: generateInsertionSortSteps_def)
  qed
qed

section \<open>Incorrect attempts\<close>

text \<open>
  Claim C7. When a swap attempt in the playing state does not match the step at the
  cursor, the session counts one more incorrect move (and one more move in total), leaves
  the live sequence, the cursor and everything else as they are, and returns a failure with
  the attempted indices, the indices of the expected step, the error message of the
  session's algorithm for that step and attempt, and the hint for that step. The texts are
  spelled out for the three algorithms. The error message of bubble sort says that only
  adjacent elements may be swapped when the attempted positions are not adjacent, and
  otherwise names the expected positions and values; the messages of selection and of
  insertion sort name the value to move, its position and where it goes; the three differ.
  The hint names the positions and values of the swap that the plan requires next.
  (A playing session has its algorithm descriptor, as every session the interface produces
  has.)
\<close>

theorem incorrect_attempt:
  assumes "state s = PLAYING"
    and "getCurrentExpectedStep s = Some expectedStep"
    and "\<not> validateMove (Some expectedStep) index1 index2"
    and "currentAlgorithm s = Some (Descriptor a)"
  shows "attemptSwap index1 index2 now s =
     (Inr \<lparr>success = False, correct = Some False, completed = None, action = None,
            result_selectedIndex = None,
            result_indices = Some (index1, index2),
            expectedIndices = Some (indices expectedStep),
            result_message = getErrorMessage (Some (key a)) (Some expectedStep) index1 index2,
            nextHint = None,
            hint = Some (getNextMoveHint (Some (key a)) (Some expectedStep)),
            result_progress = None\<rparr>,
      s\<lparr>stats := (stats s)\<lparr>totalMoves := totalMoves (stats s) + 1,
                             incorrectMoves := incorrectMoves (stats s) + 1\<rparr>\<rparr>)
    \<and> incorrectMoves (stats (snd (attemptSwap index1 index2 now s)))
        = incorrectMoves (stats s) + 1
    \<and> numbers (snd (attemptSwap index1 index2 now s)) = numbers s
    \<and> currentStepIndex (snd (attemptSwap index1 index2 now s)) = currentStepIndex s
    \<and> getErrorMessage (Some ''bubble'') (Some expectedStep) index1 index2
        \<noteq> getErrorMessage (Some ''selection'') (Some expectedStep) index1 index2
    \<and> getErrorMessage (Some ''bubble'') (Some expectedStep) index1 index2
        \<noteq> getErrorMessage (Some ''insertion'') (Some expectedStep) index1 index2
    \<and> getErrorMessage (Some ''selection'') (Some expectedStep) index1 index2
        \<noteq> getErrorMessage (Some ''insertion'') (Some expectedStep) index1 index2
    \<and> getErrorMessage (Some ''bubble'') (Some expectedStep) index1 index2
        = (if \<bar>index1 - index2\<bar> \<noteq> 1 then
             ''Metoda Bulelor: Po'' @ t_comma
               @ ''i schimba doar elemente ADIACENTE! Trebuie s'' @ a_breve
               @ '' schimbi pozi'' @ t_comma @ ''iile ''
               @ show_nat (fst (indices expectedStep)) @ '' '' @ s_comma @ ''i ''
               @ show_nat (snd (indices expectedStep)) @ ''.''
           else
             ''Mutare gre'' @ s_comma @ ''it'' @ a_breve
               @ ''! Conform Metodei Bulelor, trebuie s'' @ a_breve
               @ '' compari elementele de la pozi'' @ t_comma @ ''iile ''
               @ show_nat (fst (indices expectedStep)) @ '' '' @ s_comma @ ''i ''
               @ show_nat (snd (indices expectedStep)) @ '' (valorile ''
               @ show_int (fst (step_values expectedStep)) @ '' '' @ s_comma @ ''i ''
               @ show_int (snd (step_values expectedStep)) @ '').'')
    \<and> getErrorMessage (Some ''selection'') (Some expectedStep) index1 index2
        = ''Mutare gre'' @ s_comma @ ''it'' @ a_breve @ ''! Conform Metodei Selec'' @ t_comma
            @ ''iei, trebuie s'' @ a_breve @ '' mu'' @ t_comma @ ''i minimul (''
            @ show_int (snd (step_values expectedStep)) @ '') de la pozi'' @ t_comma @ ''ia ''
            @ show_nat (snd (indices expectedStep)) @ '' la pozi'' @ t_comma @ ''ia ''
            @ show_nat (fst (indices expectedStep)) @ ''.''
    \<and> getErrorMessage (Some ''insertion'') (Some expectedStep) index1 index2
        = ''Mutare gre'' @ s_comma @ ''it'' @ a_breve @ ''! Conform Metodei Inser'' @ t_comma
            @ ''iei, trebuie s'' @ a_breve @ '' mu'' @ t_comma @ ''i elementul ''
            @ show_int (snd (step_values expectedStep)) @ '' de la pozi'' @ t_comma @ ''ia ''
            @ show_nat (snd (indices expectedStep)) @ '' spre st'' @ a_circ
            @ ''nga, schimb'' @ a_circ @ ''ndu-l cu ''
            @ show_int (fst (step_values expectedStep)) @ ''.''
    \<and> getNextMoveHint (Some ''bubble'') (Some expectedStep)
        = ''Compar'' @ a_breve @ '' pozi'' @ t_comma @ ''iile ''
            @ show_nat (fst (indices expectedStep)) @ '' '' @ s_comma @ ''i ''
            @ show_nat (snd (indices expectedStep)) @ '': schimb'' @ a_breve @ '' ''
            @ show_int (fst (step_values expectedStep)) @ '' cu ''
            @ show_int (snd (step_values expectedStep))
    \<and> getNextMoveHint (Some ''selection'') (Some expectedStep)
        = ''G'' @ a_breve @ ''se'' @ s_comma @ ''te minimul (''
            @ show_int (snd (step_values expectedStep)) @ '') '' @ s_comma @ ''i mut''
            @ a_breve @ ''-l la pozi'' @ t_comma @ ''ia ''
            @ show_nat (fst (indices expectedStep))
    \<and> getNextMoveHint (Some ''insertion'') (Some expectedStep)
        = ''Insereaz'' @ a_breve @ '' '' @ show_int (snd (step_values expectedStep))
            @ '': schimb'' @ a_breve @ '' cu '' @ show_int (fst (step_values expectedStep))
            @ '' (pozi'' @ t_comma @ ''ia '' @ show_nat (fst (indices expectedStep)) @ '')''"
proof -
  from assms(2) have c: "currentStepIndex s < length (stepQueue s)"
    and e: "stepQueue s ! currentStepIndex s = expectedStep"
    by (auto simp: getCurrentExpectedStep_def split: if_splits)
  from assms(3) e have "\<not> validateMove (Some (stepQueue s ! currentStepIndex s)) index1 index2"
    by simp
  from attemptSwap_wrong[OF assms(1) c this assms(4), of now] e
  have first: "attemptSwap index1 index2 now s =
     (Inr \<lparr>success = False, correct = Some False, completed = None, action = None,
            result_selectedIndex = None,
            result_indices = Some (index1, index2),
            expectedIndices = Some (indices expectedStep),
            result_message = getErrorMessage (Some (key a)) (Some expectedStep) index1 index2,
            nextHint = None,
            hint = Some (getNextMoveHint (Some (key a)) (Some expectedStep)),
            result_progress = None\<rparr>,
      s\<lparr>stats := (stats s)\<lparr>totalMoves := totalMoves (stats s) + 1,
                             incorrectMoves := incorrectMoves (stats s) + 1\<rparr>\<rparr>)"
    by (simp add: plain_result_def del: getErrorMessage.simps getNextMoveHint.simps)
  have texts: "getErrorMessage (Some ''bubble'') (Some expectedStep) index1 index2
        = (if \<bar>index1 - index2\<bar> \<noteq> 1 then
             ''Metoda Bulelor: Po'' @ t_comma
               @ ''i schimba doar elemente ADIACENTE! Trebuie s'' @ a_breve
               @ '' schimbi pozi'' @ t_comma @ ''iile ''
               @ show_nat (fst (indices expectedStep)) @ '' '' @ s_comma @ ''i ''
               @ show_nat (snd (indices expectedStep)) @ ''.''
           else
             ''Mutare gre'' @ s_comma @ ''it'' @ a_breve
               @ ''! Conform Metodei Bulelor, trebuie s'' @ a_breve
               @ '' compari elementele de la pozi'' @ t_comma @ ''iile ''
               @ show_nat (fst (indices expectedStep)) @ '' '' @ s_comma @ ''i ''
               @ show_nat (snd (indices expectedStep)) @ '' (valorile ''
               @ show_int (fst (step_values expectedStep)) @ '' '' @ s_comma @ ''i ''
               @ show_int (snd (step_values expectedStep)) @ '').'')"
    "getErrorMessage (Some ''selection'') (Some expectedStep) index1 index2
        = ''Mutare gre'' @ s_comma @ ''it'' @ a_breve @ ''! Conform Metodei Selec'' @ t_comma
            @ ''iei, trebuie s'' @ a_breve @ '' mu'' @ t_comma @ ''i minimul (''
            @ show_int (snd (step_values expectedStep)) @ '') de la pozi'' @ t_comma @ ''ia ''
            @ show_nat (snd (indices expectedStep)) @ '' la pozi'' @ t_comma @ ''ia ''
            @ show_nat (fst (indices expectedStep)) @ ''.''"
    "getErrorMessage (Some ''insertion'') (Some expectedStep) index1 index2
        = ''Mutare gre'' @ s_comma @ ''it'' @ a_breve @ ''! Conform Metodei Inser'' @ t_comma
            @ ''iei, trebuie s'' @ a_breve @ '' mu'' @ t_comma @ ''i elementul ''
            @ show_int (snd (step_values expectedStep)) @ '' de la pozi'' @ t_comma @ ''ia ''
            @ show_nat (snd (indices expectedStep)) @ '' spre st'' @ a_circ
            @ ''nga, schimb'' @ a_circ @ ''ndu-l cu ''
            @ show_int (fst (step_values expectedStep)) @ ''.''"
    "getNextMoveHint (Some ''bubble'') (Some expectedStep)
        = ''Compar'' @ a_breve @ '' pozi'' @ t_comma @ ''iile ''
            @ show_nat (fst (indices expectedStep)) @ '' '' @ s_comma @ ''i ''
            @ show_nat (snd (indices expectedStep)) @ '': schimb'' @ a_breve @ '' ''
            @ show_int (fst (step_values expectedStep)) @ '' cu ''
            @ show_int (snd (step_values expectedStep))"
    "getNextMoveHint (Some ''selection'') (Some expectedStep)
        = ''G'' @ a_breve @ ''se'' @ s_comma @ ''te minimul (''
            @ show_int (snd (step_values expectedStep)) @ '') '' @ s_comma @ ''i mut''
            @ a_breve @ ''-l la pozi'' @ t_comma @ ''ia ''
            @ show_nat (fst (indices expectedStep))"
    "getNextMoveHint (Some ''insertion'') (Some expectedStep)
        = ''Insereaz'' @ a_breve @ '' '' @ show_int (snd (step_values expectedStep))
            @ '': schimb'' @ a_breve @ '' cu '' @ show_int (fst (step_values expectedStep))
            @ '' (pozi'' @ t_comma @ ''ia '' @ show_nat (fst (indices expectedStep)) @ '')''"
    by (simp_all add: case_prod_beta)
  have frame: "incorrectMoves (stats (snd (attemptSwap index1 index2 now s)))
        = incorrectMoves (stats s) + 1"
    "numbers (snd (attemptSwap index1 index2 now s)) = numbers s"
    "currentStepIndex (snd (attemptSwap index1 index2 now s)) = currentStepIndex s"
    unfolding first by simp_all
  show ?thesis
    by (intro conjI first frame texts getErrorMessage_differs)
qed

theorem incorrect_attempt_witness:
  "state game_5_3_4 = PLAYING
   \<and> getCurrentExpectedStep game_5_3_4 = Some (bubble_step [5, 3, 4] 0 0)
   \<and> \<not> validateMove (Some (bubble_step [5, 3, 4] 0 0)) 0 2
   \<and> currentAlgorithm game_5_3_4 = Some (Descriptor bubble)
   \<and> incorrectMoves (stats (snd (attemptSwap 0 2 9 game_5_3_4))) = 1
   \<and> numbers (snd (attemptSwap 0 2 9 game_5_3_4)) = map Num [5, 3, 4]
   \<and> currentStepIndex (snd (attemptSwap 0 2 9 game_5_3_4)) = 0
   \<and> map_sum id expectedIndices (fst (attemptSwap 0 2 9 game_5_3_4)) = Inr (Some (0, 1))
   \<and> map_sum id result_indices (fst (attemptSwap 0 2 9 game_5_3_4)) = Inr (Some (0, 2))
   \<and> map_sum id result_message (fst (attemptSwap 0 2 9 game_5_3_4))
       = Inr (''Metoda Bulelor: Po'' @ [CHR 0xC8, CHR 0x9B]
              @ ''i schimba doar elemente ADIACENTE! Trebuie s'' @ [CHR 0xC4, CHR 0x83]
              @ '' schimbi pozi'' @ [CHR 0xC8, CHR 0x9B] @ ''iile 0 '' @ [CHR 0xC8, CHR 0x99]
              @ ''i 1.'')
   \<and> map_sum id hint (fst (attemptSwap 0 2 9 game_5_3_4))
       = Inr (Some (''Compar'' @ [CHR 0xC4, CHR 0x83] @ '' pozi'' @ [CHR 0xC8, CHR 0x9B]
              @ ''iile 0 '' @ [CHR 0xC8, CHR 0x99] @ ''i 1: schimb'' @ [CHR 0xC4, CHR 0x83]
              @ '' 5 cu 3''))
   \<and> getErrorMessage (Some ''bubble'') (Some (bubble_step [5, 3, 4] 0 0)) 1 2
       = ''Mutare gre'' @ [CHR 0xC8, CHR 0x99] @ ''it'' @ [CHR 0xC4, CHR 0x83]
           @ ''! Conform Metodei Bulelor, trebuie s'' @ [CHR 0xC4, CHR 0x83]
           @ '' compari elementele de la pozi'' @ [CHR 0xC8, CHR 0x9B] @ ''iile 0 ''
           @ [CHR 0xC8, CHR 0x99] @ ''i 1 (valorile 5 '' @ [CHR 0xC8, CHR 0x99] @ ''i 3).''
   \<and> getErrorMessage (Some ''selection'') (Some (bubble_step [5, 3, 4] 0 0)) 0 2
       = ''Mutare gre'' @ [CHR 0xC8, CHR 0x99] @ ''it'' @ [CHR 0xC4, CHR 0x83]
           @ ''! Conform Metodei Selec'' @ [CHR 0xC8, CHR 0x9B] @ ''iei, trebuie s''
           @ [CHR 0xC4, CHR 0x83] @ '' mu'' @ [CHR 0xC8, CHR 0x9B]
           @ ''i minimul (3) de la pozi'' @ [CHR 0xC8, CHR 0x9B] @ ''ia 1 la pozi''
           @ [CHR 0xC8, CHR 0x9B] @ ''ia 0.''
   \<and> getErrorMessage (Some ''insertion'') (Some (bubble_step [5, 3, 4] 0 0)) 0 2
       = ''Mutare gre'' @ [CHR 0xC8, CHR 0x99] @ ''it'' @ [CHR 0xC4, CHR 0x83]
           @ ''! Conform Metodei Inser'' @ [CHR 0xC8, CHR 0x9B] @ ''iei, trebuie s''
           @ [CHR 0xC4, CHR 0x83] @ '' mu'' @ [CHR 0xC8, CHR 0x9B]
           @ ''i elementul 3 de la pozi'' @ [CHR 0xC8, CHR 0x9B] @ ''ia 1 spre st''
           @ [CHR 0xC3, CHR 0xA2] @ ''nga, schimb'' @ [CHR 0xC3, CHR 0xA2]
           @ ''ndu-l cu 5.''
   \<and> getNextMoveHint (Some ''selection'') (Some (bubble_step [5, 3, 4] 0 0))
       = ''G'' @ [CHR 0xC4, CHR 0x83] @ ''se'' @ [CHR 0xC8, CHR 0x99] @ ''te minimul (3) ''
           @ [CHR 0xC8, CHR 0x99] @ ''i mut'' @ [CHR 0xC4, CHR 0x83] @ ''-l la pozi''
           @ [CHR 0xC8, CHR 0x9B] @ ''ia 0''
   \<and> getNextMoveHint (Some ''insertion'') (Some (bubble_step [5, 3, 4] 0 0))
       = ''Insereaz'' @ [CHR 0xC4, CHR 0x83] @ '' 3: schimb'' @ [CHR 0xC4, CHR 0x83]
           @ '' cu 5 (pozi'' @ [CHR 0xC8, CHR 0x9B] @ ''ia 0)''"
proof -
  have h: "state game_5_3_4 = PLAYING"
    "getCurrentExpectedStep game_5_3_4 = Some (bubble_step [5, 3, 4] 0 0)"
    "\<not> validateMove (Some (bubble_step [5, 3, 4] 0 0)) 0 2"
    "currentAlgorithm game_5_3_4 = Some (Descriptor bubble)"
    by code_simp+
  have v: "incorrectMoves (stats game_5_3_4) = 0" "numbers game_5_3_4 = map Num [5, 3, 4]"
    "currentStepIndex game_5_3_4 = 0" "indices (bubble_step [5, 3, 4] 0 0) = (0, 1)"
    "step_values (bubble_step [5, 3, 4] 0 0) = (5, 3)" "key bubble = ''bubble''"
    by (simp_all add: game_5_3_4_def bubble_step_def bubble_def)
  have d: "show_nat 0 = ''0''" "show_nat 1 = ''1''" "show_int 5 = ''5''" "show_int 3 = ''3''"
    "a_breve = [CHR 0xC4, CHR 0x83]" "a_circ = [CHR 0xC3, CHR 0xA2]"
    "s_comma = [CHR 0xC8, CHR 0x99]" "t_comma = [CHR 0xC8, CHR 0x9B]"
    by code_simp+
  have h': "\<not> validateMove (Some (bubble_step [5, 3, 4] 0 0)) 1 2"
    by code_simp
  from incorrect_attempt[OF h, of 9] incorrect_attempt[OF h(1,2) h' h(4), of 9] h v d
  show ?thesis by (simp del: getErrorMessage.simps getNextMoveHint.simps)
qed

section \<open>Move validation\<close>

text \<open>
  Claim C8. For every step and all integer indices \<open>a\<close> and \<open>b\<close>, \<open>validateMove\<close> gives
  the same answer for \<open>(a, b)\<close> and \<open>(b, a)\<close>; it is true exactly when the unordered pair
  \<open>{a, b}\<close> is the unordered pair of the step's recorded positions; and on an absent
  step it is false for all \<open>a\<close> and \<open>b\<close>.
\<close>

theorem validateMove_symmetric_pair:
  "validateMove (Some expectedStep) a b = validateMove (Some expectedStep) b a
   \<and> validateMove (Some expectedStep) a b
       = ({a, b} = {int (fst (indices expectedStep)), int (snd (indices expectedStep))})
   \<and> validateMove None a b = validateMove None b a
   \<and> validateMove None a b = False"
  by (cases "indices expectedStep") (auto simp: doubleton_eq_iff)

section \<open>The live sequence\<close>

text \<open>
  Claim C9. In every session reached from \<open>startNewGame\<close> by calls of
  \<open>selectElement\<close>, the live sequence is the original sequence with the first
  \<open>currentStepIndex\<close> steps of the plan applied to it, in order, as swaps; and when
  there is a step at the cursor, the two values it records are the values that the live
  sequence holds at its two positions.
\<close>

theorem live_sequence_follows_plan:
  assumes "reachable s"
  shows "numbers s = apply_swaps (take (currentStepIndex s) (stepQueue s)) (originalNumbers s)
    \<and> (currentStepIndex s < length (stepQueue s) \<longrightarrow>
         js_get (numbers s) (fst (indices (stepQueue s ! currentStepIndex s)))
           = Num (fst (step_values (stepQueue s ! currentStepIndex s)))
         \<and> js_get (numbers s) (snd (indices (stepQueue s ! currentStepIndex s)))
           = Num (snd (step_values (stepQueue s ! currentStepIndex s))))"
proof -
  from assms have "session_ok s" by (rule reachable_session_ok)
  then obtain arr where arr: "originalNumbers s = map Num arr" "recorded arr (stepQueue s)"
    "numbers s = map Num (replay (take (currentStepIndex s) (stepQueue s)) arr)"
    unfolding session_ok_def by blast
  have "numbers s = apply_swaps (take (currentStepIndex s) (stepQueue s)) (originalNumbers s)"
    using arr apply_swaps_map_Num[OF recorded_take[OF arr(2)]] by simp
  moreover have "js_get (numbers s) (fst (indices (stepQueue s ! currentStepIndex s)))
           = Num (fst (step_values (stepQueue s ! currentStepIndex s)))
         \<and> js_get (numbers s) (snd (indices (stepQueue s ! currentStepIndex s)))
           = Num (snd (step_values (stepQueue s ! currentStepIndex s)))"
    if c: "currentStepIndex s < length (stepQueue s)"
    using recorded_at[OF arr(2) c] arr(3) by (simp add: js_get_map_Num)
  ultimately show ?thesis by blast
qed

theorem live_sequence_follows_plan_witness:
  "reachable (snd (selectElement 1 8 (snd (selectElement 0 7 example_game))))
   \<and> currentStepIndex (snd (selectElement 1 8 (snd (selectElement 0 7 example_game)))) = 1
   \<and> numbers (snd (selectElement 1 8 (snd (selectElement 0 7 example_game))))
       = apply_swaps
           (take (currentStepIndex (snd (selectElement 1 8 (snd (selectElement 0 7 example_game)))))
              (stepQueue (snd (selectElement 1 8 (snd (selectElement 0 7 example_game))))))
           (originalNumbers (snd (selectElement 1 8 (snd (selectElement 0 7 example_game)))))
   \<and> reachable example_game
   \<and> currentStepIndex example_game < length (stepQueue example_game)
   \<and> js_get (numbers example_game)
         (fst (indices (stepQueue example_game ! currentStepIndex example_game)))
       = Num (fst (step_values (stepQueue example_game ! currentStepIndex example_game)))
   \<and> js_get (numbers example_game)
         (snd (indices (stepQueue example_game ! currentStepIndex example_game)))
       = Num (snd (step_values (stepQueue example_game ! currentStepIndex example_game)))"
proof -
  let ?s = "snd (selectElement 1 8 (snd (selectElement 0 7 example_game)))"
  have r: "reachable ?s"
    by (intro reachable_selectElement example_game_reachable)
  have e: "currentStepIndex ?s = 1"
    "currentStepIndex example_game < length (stepQueue example_game)"
    by code_simp+
  from live_sequence_follows_plan[OF r] live_sequence_follows_plan[OF example_game_reachable]
    r example_game_reachable e
  show ?thesis by blast
qed

section \<open>No game without a step\<close>

text \<open>
  Claim C10. Every game that \<open>startNewGame\<close> creates has a plan with at least one
  step: the random numbers, whenever the generator returns them, are at least five distinct
  values that are not in non-decreasing order, so that none of the three generators
  returns an empty plan for them; the generator does return once the random source has
  delivered seven different numbers and six further draws. Hence, in a session that is
  driven through \<open>selectElement\<close> and is playing, there is a step at the cursor: the
  branch of a swap attempt for an exhausted plan is never taken.
\<close>

theorem every_game_has_a_step:
  "(generateRandomNumbers draws = Some (arr, rest) \<longrightarrow>
      5 \<le> length arr \<and> distinct arr \<and> \<not> sorted arr
      \<and> generateBubbleSortSteps arr \<noteq> [] \<and> generateSelectionSortSteps arr \<noteq> []
      \<and> generateInsertionSortSteps arr \<noteq> [])
   \<and> (7 \<le> card ((\<lambda>r. r mod 20) ` set ds) \<and> 6 \<le> length extra \<longrightarrow>
        generateRandomNumbers (r # ds @ extra) \<noteq> None)
   \<and> (startNewGame algorithmKey draws' now s0 = Some (Inr info, s1) \<longrightarrow>
        stepQueue s1 \<noteq> [] \<and> 0 < totalSteps info)
   \<and> (reachable s \<and> state s = PLAYING \<longrightarrow> getCurrentExpectedStep s \<noteq> None)"
proof (intro conjI impI)
  assume "reachable s \<and> state s = PLAYING"
  then have "session_ok s" "state s = PLAYING" by (simp_all add: reachable_session_ok)
  then show "getCurrentExpectedStep s \<noteq> None"
    unfolding session_ok_def getCurrentExpectedStep_def by simp
qed (use generateRandomNumbers_result unsorted_plans_nonempty generateRandomNumbers_returns
      started_has_steps in \<open>blast+\<close>)

theorem every_game_has_a_step_witness:
  "generateRandomNumbers [0, 0, 1, 2, 3, 4, 4, 3, 2, 1] = Some ([2, 1, 3, 4, 5], [])
   \<and> generateBubbleSortSteps [2, 1, 3, 4, 5] \<noteq> []
   \<and> 7 \<le> card ((\<lambda>r. r mod 20) ` set [20, 1, 2, 23, 4, 5, 6 :: nat])
   \<and> 6 \<le> length [0, 0, 0, 0, 0, 0 :: nat]
   \<and> generateRandomNumbers (2 # [20, 1, 2, 23, 4, 5, 6] @ [0, 0, 0, 0, 0, 0]) \<noteq> None
   \<and> map_option snd (startNewGame None example_draws 0 gameEngine) = Some example_game
   \<and> stepQueue example_game \<noteq> []
   \<and> reachable example_game \<and> state example_game = PLAYING
   \<and> getCurrentExpectedStep example_game \<noteq> None"
proof -
  have g: "generateRandomNumbers [0, 0, 1, 2, 3, 4, 4, 3, 2, 1] = Some ([2, 1, 3, 4, 5], [])"
    by code_simp
  have c: "7 \<le> card ((\<lambda>r. r mod 20) ` set [20, 1, 2, 23, 4, 5, 6 :: nat])
      \<and> 6 \<le> length [0, 0, 0, 0, 0, 0 :: nat]"
    by code_simp
  have p: "state example_game = PLAYING" by (simp add: example_game_def)
  have l: "map_option (isl \<circ> fst) (startNewGame None example_draws 0 gameEngine) = Some False"
    by code_simp
  from example_game_started obtain outcome where
    o: "startNewGame None example_draws 0 gameEngine = Some (outcome, example_game)"
    by (cases "startNewGame None example_draws 0 gameEngine") auto
  with l have "\<not> isl outcome" by simp
  then obtain info where "outcome = Inr info" by (cases outcome) auto
  with o have i: "startNewGame None example_draws 0 gameEngine = Some (Inr info, example_game)"
    by simp
  from every_game_has_a_step[of "[0, 0, 1, 2, 3, 4, 4, 3, 2, 1]" "[2, 1, 3, 4, 5]" "[]"
      "[20, 1, 2, 23, 4, 5, 6]" "[0, 0, 0, 0, 0, 0]" 2 None example_draws 0 gameEngine info
      example_game example_game]
    g c p i example_game_started example_game_reachable
  show ?thesis by simp
qed

end
